theory Spec2Isabelle
  imports Main
begin

section \<open>JavaScript values and string helpers\<close>

text \<open>
  A JavaScript value that is a string, \<^verbatim>\<open>undefined\<close> or \<^verbatim>\<open>null\<close> is a
  \<open>string option\<close>. It is truthy when it is a non-empty string.
\<close>

definition truthy :: "string option \<Rightarrow> bool" where
  "truthy v = (case v of None \<Rightarrow> False | Some s \<Rightarrow> s \<noteq> [])"

text \<open>What a template literal \<^verbatim>\<open>`${v}`\<close> prints.\<close>

definition js_string :: "string option \<Rightarrow> string" where
  "js_string v = (case v of None \<Rightarrow> ''undefined'' | Some s \<Rightarrow> s)"

text \<open>\<^verbatim>\<open>a || b\<close> on such values.\<close>

definition or_else :: "string option \<Rightarrow> string option \<Rightarrow> string option" where
  "or_else a b = (if truthy a then a else b)"

definition nl :: string where
  "nl = [CHR 0x0A]"

text \<open>\<^verbatim>\<open>s.split(c)\<close> for a one-character separator: never the empty list.\<close>

fun split :: "char \<Rightarrow> string \<Rightarrow> string list" where
  "split c [] = [[]]"
| "split c (x # xs) =
     (if x = c then [] # split c xs
      else (case split c xs of [] \<Rightarrow> [[x]] | y # ys \<Rightarrow> (x # y) # ys))"

text \<open>\<^verbatim>\<open>xs.join(sep)\<close>.\<close>

fun join :: "string \<Rightarrow> string list \<Rightarrow> string" where
  "join sep [] = []"
| "join sep [x] = x"
| "join sep (x # y # ys) = x @ sep @ join sep (y # ys)"

text \<open>\<^verbatim>\<open>s.trim()\<close>, on the ASCII white space characters.\<close>

definition is_space :: "char \<Rightarrow> bool" where
  "is_space c = (c \<in> set [CHR '' '', CHR 0x09, CHR 0x0A, CHR 0x0B, CHR 0x0C, CHR 0x0D])"

definition trim :: "string \<Rightarrow> string" where
  "trim s = rev (dropWhile is_space (rev (dropWhile is_space s)))"

text \<open>\<^verbatim>\<open>s.indexOf(p) > -1\<close>.\<close>

fun contains :: "string \<Rightarrow> string \<Rightarrow> bool" where
  "contains [] p = (p = [])"
| "contains (x # xs) p = (take (length p) (x # xs) = p \<or> contains xs p)"

section \<open>Data of the client\<close>

text \<open>The response of the remote service, as axios hands it over.\<close>

record response_data =
  data_uid :: "string option"
  data_url :: "string option"
  data_message :: "string option"

record response =
  resp_status :: int
  resp_data :: "response_data option"

text \<open>
  What a promise is rejected with: an axios error, which carries a response when the
  service answered, or a \<^verbatim>\<open>TypeError\<close> raised by the client's own code.
\<close>

datatype err = AxiosError "response option" | TypeError string

fun err_response :: "err \<Rightarrow> response option" where
  "err_response (AxiosError r) = r"
| "err_response (TypeError m) = None"

datatype settle = Fulfilled "response option" | Rejected err

text \<open>The error object of a failed test, with the properties \<open>addTestRun\<close> reads.\<close>

record js_error =
  err_message :: "string option"
  err_inspect :: "string option"
  err_actual :: "string option"
  err_expected :: "string option"

text \<open>The result descriptor \<open>testData\<close>; a missing property is \<open>None\<close>.\<close>

record test_data =
  td_message :: "string option"
  td_error :: "js_error option"
  td_time :: "string option"
  td_example :: "string option"
  td_files :: "string list option"
  td_steps :: "string option"
  td_title :: "string option"
  td_suite_title :: "string option"
  td_suite_id :: "string option"
  td_test_id :: "string option"

definition no_test_data :: test_data where
  "no_test_data = \<lparr>td_message = None, td_error = None, td_time = None, td_example = None,
     td_files = None, td_steps = None, td_title = None, td_suite_title = None,
     td_suite_id = None, td_test_id = None\<rparr>"

text \<open>The bodies sent to the service.\<close>

record run_params =
  rp_api_key :: string
  rp_title :: "string option"
  rp_parallel :: "bool option"
  rp_group_title :: "string option"
  rp_env :: "string option"

record payload =
  p_api_key :: "string option"
  p_files :: "string list"
  p_steps :: "string option"
  p_status :: string
  p_stack :: string
  p_example :: "string option"
  p_title :: "string option"
  p_suite_title :: "string option"
  p_suite_id :: "string option"
  p_test_id :: "string option"
  p_message :: "string option"
  p_run_time :: string
  p_artifacts :: "string list"

record status_body =
  sb_api_key :: "string option"
  sb_status_event :: "string option"
  sb_status :: string

datatype http_method = POST | PUT

datatype axios_instance = Global_axios | Client_axios

datatype body = Run_params run_params | Test_run payload | Status_update status_body

record request =
  via :: axios_instance
  verb :: http_method
  target :: string
  body :: body

text \<open>
  The variables captured by the function that \<open>addTestRun\<close> puts on the queue.
  \<open>c_uploadedFiles\<close> are the pending uploads, each the file and the run id it was
  requested with.
\<close>

record test_run =
  c_files :: "string list"
  c_steps :: "string option"
  c_status :: string
  c_stack :: string
  c_example :: "string option"
  c_title :: "string option"
  c_suite_title :: "string option"
  c_suite_id :: "string option"
  c_test_id :: "string option"
  c_message :: "string option"
  c_time :: string
  c_uploadedFiles :: "(string \<times> string) list"

text \<open>
  One link of the promise chain \<open>this.queue\<close>: the handlers one call has chained.
  \<open>Put_run\<close> is chained by \<open>createRun\<close> for an external run id (a fulfilment handler
  only), \<open>Create_run\<close> by \<open>createRun\<close> otherwise, \<open>Add_test_run\<close> by \<open>addTestRun\<close>
  and \<open>Update_run_status\<close> by \<open>updateRunStatus\<close> (each a fulfilment handler followed by
  a rejection handler).
\<close>

datatype task =
    Put_run string run_params
  | Create_run run_params
  | Add_test_run test_run
  | Update_run_status string bool

text \<open>Where the running handler is suspended.\<close>

datatype phase =
    Await_uploads test_run "string option"
  | Await_response task request

datatype style = Bold | Red | Green | Blue | Magenta

datatype log =
    Log_invalid_url string
  | Log_report_created "string option"
  | Log_error_creating
  | Log_not_processed_status "string option" int "string option"
  | Log_not_processed_message "string option" "string option"
  | Log_not_processed "string option" err
  | Log_error_updating err
  | Log_report_saved string
  | Log_callsite_error err

datatype net_event = Issue nat request | Reply nat "err + response"

datatype callsite = Callsite_throws err | No_record | Rendered string

text \<open>
  The process environment the module reads when it is loaded, and the collaborators:
  the URL parser, chalk, callsite-record, the file uploader and the transport. The
  answer of the transport may depend on the request and on the position in the chain
  of the link that sends it.
\<close>

record world =
  TESTOMATIO_URL :: "string option"
  TESTOMATIO_RUNGROUP_TITLE :: "string option"
  TESTOMATIO_ENV :: "string option"
  TESTOMATIO_RUN :: "string option"
  TESTOMATIO :: "string option"
  TESTOMATIO_TITLE :: "string option"
  initial_runId :: "string option"
  sep :: string
  parses_as_URL :: "string \<Rightarrow> bool"
  chalk :: "style list \<Rightarrow> string \<Rightarrow> string"
  renderSync :: "js_error \<Rightarrow> (string \<Rightarrow> bool) \<Rightarrow> callsite"
  uploadFile :: "string \<Rightarrow> string \<Rightarrow> err + string"
  transport :: "nat \<Rightarrow> request \<Rightarrow> err + response"

text \<open>
  The client object together with what it shares with its surroundings:
  \<open>process.env.runId\<close>, the requests the transport has seen, the uploads requested
  (each with the position in the chain of the call that asked for it) and the console.
  \<open>this.queue\<close> is the chain: the settlement of its newest settled promise
  (\<open>queue\<close>), the handler that is running, and the handlers not yet run.
  \<open>settlements\<close> keeps the settlement of every promise of the chain, in order.
\<close>

record client =
  apiKey :: "string option"
  title :: "string option"
  parallel :: "bool option"
  runId :: "string option"
  runUrl :: "string option"
  queue :: settle
  running :: "phase option"
  pending :: "task list"
  settlements :: "settle list"
  env_runId :: "string option"
  net :: "net_event list"
  uploads :: "(nat \<times> string \<times> string) list"
  console :: "log list"

record params =
  params_apiKey :: "string option"
  params_title :: "string option"
  params_parallel :: "bool option"

section \<open>The module and the constructor\<close>

definition TESTOMAT_URL :: "world \<Rightarrow> string" where
  "TESTOMAT_URL w = js_string (or_else (TESTOMATIO_URL w) (Some ''https://app.testomat.io''))"

text \<open>\<open>process.env.runId\<close> once the module is loaded.\<close>

definition loaded_runId :: "world \<Rightarrow> string option" where
  "loaded_runId w = (if truthy (TESTOMATIO_RUN w) then TESTOMATIO_RUN w else initial_runId w)"

definition TestomatClient :: "world \<Rightarrow> params \<Rightarrow> client" where
  "TestomatClient w ps =
     \<lparr>apiKey = or_else (params_apiKey ps) (TESTOMATIO w),
      title = or_else (params_title ps) (TESTOMATIO_TITLE w),
      parallel = params_parallel ps,
      runId = loaded_runId w,
      runUrl = None,
      queue = Fulfilled None,
      running = None,
      pending = [],
      settlements = [],
      env_runId = loaded_runId w,
      net = [],
      uploads = [],
      console = []\<rparr>"

definition isValidUrl :: "world \<Rightarrow> string \<Rightarrow> bool" where
  "isValidUrl w s = parses_as_URL w s"

section \<open>The calls\<close>

text \<open>
  What a call gives its caller: an exception, \<^verbatim>\<open>undefined\<close>, a promise already
  resolved with a value, or the promise of the chain at a position.
\<close>

datatype ret = Throws err | Returns_undefined | Returns_resolved string | Returns_queue nat

text \<open>The number of promises chained after the initial \<^verbatim>\<open>Promise.resolve()\<close>.\<close>

definition chained :: "client \<Rightarrow> nat" where
  "chained s = length (settlements s) + (case running s of None \<Rightarrow> 0 | Some ph \<Rightarrow> 1)
     + length (pending s)"

definition enqueue :: "task \<Rightarrow> client \<Rightarrow> client" where
  "enqueue t s = s\<lparr>pending := pending s @ [t]\<rparr>"

definition say :: "log \<Rightarrow> client \<Rightarrow> client" where
  "say l s = s\<lparr>console := console s @ [l]\<rparr>"

definition createRun :: "world \<Rightarrow> client \<Rightarrow> ret \<times> client" where
  "createRun w s =
     (case apiKey s of
        None \<Rightarrow> (Throws (TypeError ''Cannot read properties of undefined (reading trim)''), s)
      | Some key \<Rightarrow>
          (let runParams = \<lparr>rp_api_key = trim key, rp_title = title s,
                 rp_parallel = parallel s, rp_group_title = TESTOMATIO_RUNGROUP_TITLE w,
                 rp_env = TESTOMATIO_ENV w\<rparr>
           in if \<not> isValidUrl w (trim (TESTOMAT_URL w))
              then (Returns_undefined, say (Log_invalid_url (TESTOMAT_URL w)) s)
              else if truthy (env_runId s)
              then (Returns_resolved (js_string (env_runId s)),
                    enqueue (Put_run (js_string (env_runId s)) runParams)
                      (s\<lparr>runId := env_runId s\<rparr>))
              else (Returns_queue (chained s), enqueue (Create_run runParams) s)))"

text \<open>The filter of stack frames handed to callsite-record.\<close>

definition stackFilter :: "world \<Rightarrow> string \<Rightarrow> bool" where
  "stackFilter w fileName =
     (contains fileName (sep w) \<and> \<not> contains fileName ''node_modules''
      \<and> \<not> contains fileName ''internal'')"

text \<open>
  Lines 116 and 117: the message of a failed test. \<open>inspect\<close>, when the error has
  one, is taken to return its text; these lines stand before the \<^verbatim>\<open>try\<close> of line 135.
\<close>

definition error_message :: "string option \<Rightarrow> js_error \<Rightarrow> string option" where
  "error_message msg e =
     (let m = (if \<not> truthy msg then err_message e else msg)
      in if err_inspect e \<noteq> None then err_inspect e else m)"

text \<open>\<^verbatim>\<open>v.toString().split("\n").join("\n" + marker)\<close> behind the marker.\<close>

definition marked :: "string \<Rightarrow> string \<Rightarrow> string" where
  "marked marker v = marker @ join (nl @ marker) (split (CHR 0x0A) v)"

text \<open>Lines 122 to 133: the diff of mocha, cypress and codeceptjs.\<close>

definition diff :: "world \<Rightarrow> js_error \<Rightarrow> string" where
  "diff w e =
     (if truthy (err_actual e) \<and> truthy (err_expected e)
      then nl @ nl @ chalk w [Bold, Green] ''+ expected'' @ '' ''
             @ chalk w [Bold, Red] ''- actual''
           @ nl @ chalk w [Red] (marked ''- '' (js_string (err_actual e)))
           @ nl @ chalk w [Green] (marked ''+ '' (js_string (err_expected e)))
           @ nl @ nl
      else [])"

text \<open>Lines 135 to 149: the rendered call site, and what the \<^verbatim>\<open>catch\<close> logs.\<close>

definition callsite_text :: "world \<Rightarrow> js_error \<Rightarrow> string \<times> log list" where
  "callsite_text w e =
     (case renderSync w e (stackFilter w) of
        Callsite_throws x \<Rightarrow> ([], [Log_callsite_error x])
      | No_record \<Rightarrow> ([], [])
      | Rendered r \<Rightarrow> (r, []))"

text \<open>Lines 113 to 157: the message and the diagnostic text \<open>stack\<close>.\<close>

definition diagnostic :: "world \<Rightarrow> test_data \<Rightarrow> string option \<times> string \<times> log list" where
  "diagnostic w td =
     (let message0 = (case td_message td of None \<Rightarrow> Some [] | Some m \<Rightarrow> Some m);
          (message, stack0, logs) =
            (case td_error td of
               None \<Rightarrow> (message0, [], [])
             | Some e \<Rightarrow>
                 (let m = error_message message0 e
                  in (m, nl @ chalk w [Bold] (js_string m) @ nl @ diff w e
                           @ fst (callsite_text w e),
                      snd (callsite_text w e))));
          stack = (if truthy (td_steps td)
                   then (if stack0 \<noteq> []
                         then js_string (td_steps td) @ nl @ nl
                              @ chalk w [Bold, Red]
                                  ''################[ Failure ]################''
                              @ nl @ stack0
                         else js_string (td_steps td))
                   else stack0)
      in (message, stack, logs))"

text \<open>
  Line 111 writes the explicit test id into the caller's object \<open>testData\<close>. The
  variable \<open>test_id\<close> was read from the object at line 106, and nothing of the client
  reads the object again.
\<close>

definition testData_after :: "string option \<Rightarrow> test_data \<Rightarrow> test_data" where
  "testData_after testId td = (if truthy testId then td\<lparr>td_test_id := testId\<rparr> else td)"

text \<open>
  Lines 96 to 163: the variables the queued function captures, for a client whose run
  id is \<open>rid\<close> at the time of the call.
\<close>

definition closure :: "world \<Rightarrow> string option \<Rightarrow> string \<Rightarrow> test_data \<Rightarrow> test_run" where
  "closure w rid status td =
     (let files = (case td_files td of None \<Rightarrow> [] | Some fs \<Rightarrow> fs);
          time = (case td_time td of None \<Rightarrow> [] | Some t \<Rightarrow> t);
          test_id = td_test_id td;
          (message, stack, logs) = diagnostic w td;
          uploadedFiles = (if truthy rid
                           then map (\<lambda>file. (file, js_string rid)) files else [])
      in \<lparr>c_files = files, c_steps = td_steps td, c_status = status,
          c_stack = stack, c_example = td_example td, c_title = td_title td,
          c_suite_title = td_suite_title td, c_suite_id = td_suite_id td,
          c_test_id = test_id, c_message = message, c_time = time,
          c_uploadedFiles = uploadedFiles\<rparr>)"

definition addTestRun ::
  "world \<Rightarrow> string option \<Rightarrow> string \<Rightarrow> test_data option \<Rightarrow> client \<Rightarrow> ret \<times> client" where
  "addTestRun w testId status testData s =
     (let td = (case testData of None \<Rightarrow> no_test_data | Some d \<Rightarrow> d);
          c = closure w (runId s) status td
      in (Returns_queue (chained s),
          enqueue (Add_test_run c)
            (s\<lparr>console := console s @ snd (snd (diagnostic w td)),
               uploads := uploads s
                 @ map (\<lambda>(file, rid). (chained s, file, rid)) (c_uploadedFiles c)\<rparr>)))"

definition updateRunStatus :: "string \<Rightarrow> bool \<Rightarrow> client \<Rightarrow> ret \<times> client" where
  "updateRunStatus status isParallel s =
     (Returns_queue (chained s), enqueue (Update_run_status status isParallel) s)"

section \<open>The handlers on the queue\<close>

text \<open>
  Modelled from the spec: the constants \<open>PASSED\<close> and \<open>FAILED\<close> of \<^verbatim>\<open>lib/constants\<close>,
  which is not among the sources; the spec names the two statuses \<open>passed\<close> and
  \<open>failed\<close>.
\<close>

definition PASSED :: string where
  "PASSED = ''passed''"

definition FAILED :: string where
  "FAILED = ''failed''"

text \<open>The promise of the running link settles: the chain moves on.\<close>

definition settle_with :: "settle \<Rightarrow> client \<Rightarrow> client" where
  "settle_with r s = s\<lparr>queue := r, running := None, settlements := settlements s @ [r]\<rparr>"

text \<open>
  A request goes to the transport, tagged with the position in the chain of the link
  that sends it.
\<close>

definition issue :: "task \<Rightarrow> request \<Rightarrow> client \<Rightarrow> client" where
  "issue t r s = s\<lparr>running := Some (Await_response t r),
                   net := net s @ [Issue (length (settlements s)) r]\<rparr>"

text \<open>Lines 80 to 85.\<close>

definition createRun_catch :: "client \<Rightarrow> client" where
  "createRun_catch s = settle_with (Fulfilled None) (say Log_error_creating s)"

text \<open>
  Lines 196 to 215. Reading \<^verbatim>\<open>err.response.data.message\<close> raises when the response
  has no data; the handler then rejects.
\<close>

definition addTestRun_catch :: "string option \<Rightarrow> err \<Rightarrow> client \<Rightarrow> client" where
  "addTestRun_catch ttl e s =
     (case err_response e of
        Some r \<Rightarrow>
          if resp_status r \<ge> 400
          then settle_with (Fulfilled None)
                 (say (Log_not_processed_status ttl (resp_status r)
                         (case resp_data r of None \<Rightarrow> Some [] | Some d \<Rightarrow> data_message d)) s)
          else (case resp_data r of
                  None \<Rightarrow> settle_with
                    (Rejected (TypeError ''Cannot read properties of undefined (reading message)'')) s
                | Some d \<Rightarrow> settle_with (Fulfilled None)
                    (say (Log_not_processed_message ttl (data_message d)) s))
      | None \<Rightarrow> settle_with (Fulfilled None) (say (Log_not_processed ttl e) s))"

text \<open>Lines 247 to 249.\<close>

definition updateRunStatus_catch :: "err \<Rightarrow> client \<Rightarrow> client" where
  "updateRunStatus_catch e s = settle_with (Fulfilled None) (say (Log_error_updating e) s)"

text \<open>
  The promise before a link is rejected: its fulfilment handler is skipped and the
  rejection goes to its rejection handler, when it has one.
\<close>

fun skip :: "task \<Rightarrow> err \<Rightarrow> client \<Rightarrow> client" where
  "skip (Put_run rid ps) e s = settle_with (Rejected e) s"
| "skip (Create_run ps) e s = createRun_catch s"
| "skip (Add_test_run c) e s = addTestRun_catch (c_title c) e s"
| "skip (Update_run_status st par) e s = updateRunStatus_catch e s"

text \<open>Lines 229 to 232.\<close>

definition statusEvent :: "string \<Rightarrow> bool \<Rightarrow> string option" where
  "statusEvent st isParallel =
     (let e1 = (if st = PASSED then Some ''pass'' else None);
          e2 = (if st = FAILED then Some ''fail'' else e1)
      in if isParallel then Some (js_string e2 @ ''_parallel'') else e2)"

text \<open>The requests of lines 59, 66, 183 to 194 and 233 to 237.\<close>

definition put_run_request :: "world \<Rightarrow> string \<Rightarrow> run_params \<Rightarrow> request" where
  "put_run_request w rid ps =
     \<lparr>via = Global_axios, verb = PUT,
      target = trim (TESTOMAT_URL w) @ ''/api/reporter/'' @ rid, body = Run_params ps\<rparr>"

definition create_run_request :: "world \<Rightarrow> run_params \<Rightarrow> request" where
  "create_run_request w ps =
     \<lparr>via = Client_axios, verb = POST,
      target = trim (TESTOMAT_URL w) @ ''/api/reporter'', body = Run_params ps\<rparr>"

text \<open>The body is the object handed to \<^verbatim>\<open>JsonCycle.stringify\<close>.\<close>

definition testrun_request ::
  "world \<Rightarrow> string option \<Rightarrow> string option \<Rightarrow> test_run \<Rightarrow> string list \<Rightarrow> request" where
  "testrun_request w rid key c artifacts =
     \<lparr>via = Client_axios, verb = POST,
      target = TESTOMAT_URL w @ ''/api/reporter/'' @ js_string rid @ ''/testrun'',
      body = Test_run
        \<lparr>p_api_key = key, p_files = c_files c, p_steps = c_steps c,
         p_status = c_status c, p_stack = c_stack c, p_example = c_example c,
         p_title = c_title c, p_suite_title = c_suite_title c,
         p_suite_id = c_suite_id c, p_test_id = c_test_id c,
         p_message = c_message c, p_run_time = c_time c,
         p_artifacts = artifacts\<rparr>\<rparr>"

definition status_request :: "world \<Rightarrow> string option \<Rightarrow> string option \<Rightarrow> string \<Rightarrow> bool \<Rightarrow> request" where
  "status_request w rid key st isParallel =
     \<lparr>via = Client_axios, verb = PUT,
      target = TESTOMAT_URL w @ ''/api/reporter/'' @ js_string rid,
      body = Status_update \<lparr>sb_api_key = key,
               sb_status_event = statusEvent st isParallel, sb_status = st\<rparr>\<rparr>"

text \<open>The promise before a link is fulfilled: its fulfilment handler starts.\<close>

fun start :: "world \<Rightarrow> task \<Rightarrow> client \<Rightarrow> client" where
  "start w (Put_run rid ps) s = issue (Put_run rid ps) (put_run_request w rid ps) s"
| "start w (Create_run ps) s = issue (Create_run ps) (create_run_request w ps) s"
| "start w (Add_test_run c) s =
     (if \<not> truthy (runId s) then settle_with (Fulfilled None) s
      else s\<lparr>running := Some (Await_uploads c (apiKey s))\<rparr>)"
| "start w (Update_run_status st isParallel) s =
     (if truthy (runId s)
      then issue (Update_run_status st isParallel)
             (status_request w (runId s) (apiKey s) st isParallel) s
      else settle_with (Fulfilled None) s)"

text \<open>\<^verbatim>\<open>Promise.all\<close>: all the values, or the first rejection in the list.\<close>

fun promise_all :: "(err + 'a) list \<Rightarrow> err + 'a list" where
  "promise_all [] = Inr []"
| "promise_all (Inl e # xs) = Inl e"
| "promise_all (Inr a # xs) = (case promise_all xs of Inl e \<Rightarrow> Inl e | Inr as \<Rightarrow> Inr (a # as))"

text \<open>
  The uploads \<open>addTestRun\<close> has requested, as line 181 finds them. Their promises are
  made at the call (lines 159 to 163) and get their first handler here, at the turn of
  the link; the model lets none of them settle sooner.
\<close>

definition uploaded :: "world \<Rightarrow> test_run \<Rightarrow> err + string list" where
  "uploaded w c = promise_all (map (\<lambda>(file, rid). uploadFile w file rid) (c_uploadedFiles c))"

text \<open>Lines 168 to 194, once the uploads have settled.\<close>

definition after_uploads :: "world \<Rightarrow> test_run \<Rightarrow> string option \<Rightarrow> client \<Rightarrow> client" where
  "after_uploads w c key s =
     (case uploaded w c of
        Inl e \<Rightarrow> addTestRun_catch (c_title c) e s
      | Inr artifacts \<Rightarrow>
          issue (Add_test_run c) (testrun_request w (runId s) key c artifacts) s)"

text \<open>
  Lines 67 to 79. Reading \<^verbatim>\<open>resp.data.uid\<close> or splitting \<^verbatim>\<open>resp.data.url\<close> raises
  when it is missing; the rejection handler of \<open>createRun\<close> takes it.
\<close>

definition report_created :: "world \<Rightarrow> response \<Rightarrow> client \<Rightarrow> client" where
  "report_created w resp s =
     (case resp_data resp of
        None \<Rightarrow> createRun_catch s
      | Some d \<Rightarrow>
          (case data_url d of
             None \<Rightarrow> createRun_catch (s\<lparr>runId := data_uid d\<rparr>)
           | Some u \<Rightarrow>
               settle_with (Fulfilled None)
                 (say (Log_report_created (data_uid d))
                    (s\<lparr>runId := data_uid d,
                       runUrl := Some (TESTOMAT_URL w @ ''/''
                                         @ join ''/'' (drop 3 (split (CHR ''/'') u))),
                       env_runId := Some (js_string (data_uid d))\<rparr>))))"

text \<open>The transport has answered the request of the running link.\<close>

fun respond :: "world \<Rightarrow> task \<Rightarrow> err + response \<Rightarrow> client \<Rightarrow> client" where
  "respond w (Put_run rid ps) out s =
     (case out of Inl e \<Rightarrow> settle_with (Rejected e) s
      | Inr r \<Rightarrow> settle_with (Fulfilled (Some r)) s)"
| "respond w (Create_run ps) out s =
     (case out of Inl e \<Rightarrow> createRun_catch s | Inr r \<Rightarrow> report_created w r s)"
| "respond w (Add_test_run c) out s =
     (case out of Inl e \<Rightarrow> addTestRun_catch (c_title c) e s
      | Inr r \<Rightarrow> settle_with (Fulfilled (Some r)) s)"
| "respond w (Update_run_status st isParallel) out s =
     (case out of Inl e \<Rightarrow> updateRunStatus_catch e s
      | Inr r \<Rightarrow> settle_with (Fulfilled None)
          (if truthy (runUrl s) then say (Log_report_saved (js_string (runUrl s))) s else s))"

section \<open>The event loop\<close>

text \<open>
  One turn of the event loop on the chain: the suspended handler resumes, or, when none
  is running, the next link starts from the settlement of the promise before it.
\<close>

definition tick :: "world \<Rightarrow> client \<Rightarrow> client" where
  "tick w s =
     (case running s of
        Some (Await_uploads c key) \<Rightarrow> after_uploads w c key s
      | Some (Await_response t r) \<Rightarrow>
          respond w t (transport w (length (settlements s)) r)
            (s\<lparr>net := net s @ [Reply (length (settlements s))
                                  (transport w (length (settlements s)) r)]\<rparr>)
      | None \<Rightarrow>
          (case pending s of
             [] \<Rightarrow> s
           | t # ts \<Rightarrow>
               (case queue s of
                  Fulfilled v \<Rightarrow> start w t (s\<lparr>pending := ts\<rparr>)
                | Rejected e \<Rightarrow> skip t e (s\<lparr>pending := ts\<rparr>))))"

datatype call =
    Call_createRun
  | Call_addTestRun "string option" string "test_data option"
  | Call_updateRunStatus string bool

datatype event = Call call | Tick

fun perform :: "world \<Rightarrow> call \<Rightarrow> client \<Rightarrow> ret \<times> client" where
  "perform w Call_createRun s = createRun w s"
| "perform w (Call_addTestRun testId st testData) s = addTestRun w testId st testData s"
| "perform w (Call_updateRunStatus st isParallel) s = updateRunStatus st isParallel s"

text \<open>A schedule: calls of the test runner, interleaved with turns of the event loop.\<close>

fun exec :: "world \<Rightarrow> event list \<Rightarrow> client \<Rightarrow> client" where
  "exec w [] s = s"
| "exec w (Tick # es) s = exec w es (tick w s)"
| "exec w (Call c # es) s = exec w es (snd (perform w c s))"

fun returned :: "world \<Rightarrow> event list \<Rightarrow> client \<Rightarrow> ret list" where
  "returned w [] s = []"
| "returned w (Tick # es) s = returned w es (tick w s)"
| "returned w (Call c # es) s = fst (perform w c s) # returned w es (snd (perform w c s))"

definition idle :: "client \<Rightarrow> bool" where
  "idle s = (running s = None \<and> pending s = [])"

text \<open>How many turns the chain still needs at most.\<close>

definition turns_left :: "client \<Rightarrow> nat" where
  "turns_left s = 3 * length (pending s)
     + (case running s of None \<Rightarrow> 0 | Some (Await_uploads c key) \<Rightarrow> 2
        | Some (Await_response t r) \<Rightarrow> 1)"

section \<open>Serialisation of the payload\<close>

text \<open>
  Modelled from the spec: \<^verbatim>\<open>JsonCycle.stringify\<close> of the package json-cycle, which is
  not among the sources. The spec asks for a serialization pass that tracks the identity
  of the objects it has visited and replaces a repeated visit with a stable reference
  token, which a compatible deserializer can restore.

  The input is a graph of objects in a store: a value is a text or the address of an
  object, and an object is the list of its properties (an array is the object of its
  indices). The output is a tree in which a repeated visit of an object is the token
  \<open>JRef\<close> with the path from the root to the first visit.
\<close>

datatype jsvalue = Text string | Object_at nat

type_synonym store = "(nat \<times> (string \<times> jsvalue) list) list"

datatype json = JText string | JObject "(string \<times> json) list" | JRef "string list"














definition fresh :: "store \<Rightarrow> nat" where
  "fresh h = Suc (fold max (map fst h) 0)"



text \<open>What a path leads to in a tree, and the tokens of a tree.\<close>

fun lookup :: "json \<Rightarrow> string list \<Rightarrow> json option" where
  "lookup j [] = Some j"
| "lookup (JObject fs) (k # ks) = (case map_of fs k of None \<Rightarrow> None | Some j \<Rightarrow> lookup j ks)"
| "lookup (JText s) (k # ks) = None"
| "lookup (JRef p) (k # ks) = None"


definition object_at :: "json \<Rightarrow> string list \<Rightarrow> bool" where
  "object_at j q = (case lookup j q of Some (JObject fs) \<Rightarrow> True | _ \<Rightarrow> False)"




section \<open>What the transport and the callers observe\<close>

text \<open>The requests in a log of the transport, each with the position of its link.\<close>

fun issued :: "net_event list \<Rightarrow> (nat \<times> request) list" where
  "issued [] = []"
| "issued (Issue k r # es) = (k, r) # issued es"
| "issued (Reply k out # es) = issued es"

fun replies :: "net_event list \<Rightarrow> nat" where
  "replies [] = 0"
| "replies (Issue k r # es) = replies es"
| "replies (Reply k out # es) = Suc (replies es)"

text \<open>The requests sent and not yet answered at the end of a log.\<close>

definition in_flight :: "net_event list \<Rightarrow> nat" where
  "in_flight es = length (issued es) - replies es"

text \<open>
  The event loop keeps turning until the chain is idle. The transport and the uploader
  always answer, so it gets there: \<open>drain\<close> is total.
\<close>

function drain :: "world \<Rightarrow> client \<Rightarrow> client" where
  "drain w s = (if idle s then s else drain w (tick w s))"
  by pat_completeness auto
termination
proof (relation "measure (\<lambda>(w, s). turns_left s)")
  show "wf (measure (\<lambda>(w, s). turns_left s))"
    by simp
next
  fix w s
  assume busy: "\<not> idle s"
  have "turns_left (tick w s) < turns_left s"
  proof (cases "running s")
    case None
    with busy obtain t ts where p: "pending s = t # ts"
      by (cases "pending s") (auto simp: idle_def)
    show ?thesis
      using None p
      by (cases "queue s"; cases t)
         (auto simp: tick_def turns_left_def settle_with_def issue_def say_def
               createRun_catch_def addTestRun_catch_def updateRunStatus_catch_def
               split: option.splits)
  next
    case (Some ph)
    show ?thesis
    proof (cases ph)
      case (Await_uploads c key)
      with Some show ?thesis
        by (auto simp: tick_def turns_left_def settle_with_def issue_def say_def
                 after_uploads_def addTestRun_catch_def split: option.splits sum.splits)
    next
      case (Await_response t r)
      with Some show ?thesis
        by (cases t)
           (auto simp: tick_def turns_left_def settle_with_def issue_def say_def
                 createRun_catch_def addTestRun_catch_def updateRunStatus_catch_def
                 report_created_def split: option.splits sum.splits)
    qed
  qed
  then show "((w, tick w s), (w, s)) \<in> measure (\<lambda>(w, s). turns_left s)"
    by simp
qed

declare drain.simps [simp del]

text \<open>The calls of a schedule, in order.\<close>

fun calls :: "event list \<Rightarrow> call list" where
  "calls [] = []"
| "calls (Tick # es) = calls es"
| "calls (Call c # es) = c # calls es"

text \<open>The calls and the links that report a result or a status.\<close>

fun reports :: "call \<Rightarrow> bool" where
  "reports Call_createRun = False"
| "reports (Call_addTestRun testId st testData) = True"
| "reports (Call_updateRunStatus st isParallel) = True"

fun reporting :: "task \<Rightarrow> bool" where
  "reporting (Put_run rid ps) = False"
| "reporting (Create_run ps) = False"
| "reporting (Add_test_run c) = True"
| "reporting (Update_run_status st isParallel) = True"

text \<open>The link a reporting call chains on a client whose run id is \<open>rid\<close>.\<close>

fun link_of :: "world \<Rightarrow> string option \<Rightarrow> call \<Rightarrow> task list" where
  "link_of w rid Call_createRun = []"
| "link_of w rid (Call_addTestRun testId st testData) =
     [Add_test_run (closure w rid st (case testData of None \<Rightarrow> no_test_data | Some d \<Rightarrow> d))]"
| "link_of w rid (Call_updateRunStatus st isParallel) = [Update_run_status st isParallel]"

text \<open>
  What a link sends when its turn comes after a fulfilled promise, on a client with run
  id \<open>rid\<close> and API key \<open>key\<close>.
\<close>

fun sends :: "world \<Rightarrow> string option \<Rightarrow> string option \<Rightarrow> task \<Rightarrow> request list" where
  "sends w rid key (Put_run r ps) = [put_run_request w r ps]"
| "sends w rid key (Create_run ps) = [create_run_request w ps]"
| "sends w rid key (Add_test_run c) =
     (if truthy rid
      then (case uploaded w c of Inl e \<Rightarrow> []
            | Inr artifacts \<Rightarrow> [testrun_request w rid key c artifacts])
      else [])"
| "sends w rid key (Update_run_status st isParallel) =
     (if truthy rid then [status_request w rid key st isParallel] else [])"

text \<open>
  The errors of reporting: the service rejects with a status of 400 or more, or there is
  no response at all. An error raised by the client's own code has no response either.
\<close>

definition benign :: "err \<Rightarrow> bool" where
  "benign e = (case err_response e of None \<Rightarrow> True | Some r \<Rightarrow> resp_status r \<ge> 400)"

definition reporting_errors_only :: "world \<Rightarrow> bool" where
  "reporting_errors_only w =
     ((\<forall>k r e. transport w k r = Inl e \<longrightarrow> benign e)
      \<and> (\<forall>file rid e. uploadFile w file rid = Inl e \<longrightarrow> benign e))"

text \<open>The chain as a list of links, by position.\<close>

datatype link = Settled settle | Running phase | Waiting task

definition chain :: "client \<Rightarrow> link list" where
  "chain s = map Settled (settlements s)
     @ (case running s of None \<Rightarrow> [] | Some ph \<Rightarrow> [Running ph])
     @ map Waiting (pending s)"

text \<open>The promise a call has returned is resolved with no value.\<close>

fun resolved_empty :: "client \<Rightarrow> ret \<Rightarrow> bool" where
  "resolved_empty s (Returns_queue k) =
     (k < length (settlements s) \<and> settlements s ! k = Fulfilled None)"
| "resolved_empty s r = False"

text \<open>
  The rejection nobody takes. The newest promise of the chain is rejected, no link is
  chained on it, and it is none of the promises \<open>rs\<close> that the calls have returned:
  no rejection handler will see it. Node reports such a promise as an unhandled
  rejection and by default ends the process with its error.
\<close>

definition unhandled :: "ret list \<Rightarrow> client \<Rightarrow> err list" where
  "unhandled rs s =
     (case queue s of Fulfilled v \<Rightarrow> []
      | Rejected e \<Rightarrow>
          if idle s \<and> Returns_queue (length (settlements s) - 1) \<notin> set rs then [e] else [])"

section \<open>Worlds to run the client in\<close>

text \<open>
  A service that creates the run \<open>run1\<close> and accepts everything, no colours, no call
  site, uploads that succeed; the same with the service out of reach; and both with an
  external run id in the environment.
\<close>

definition plain_world :: world where
  "plain_world =
     \<lparr>TESTOMATIO_URL = None, TESTOMATIO_RUNGROUP_TITLE = None, TESTOMATIO_ENV = None,
      TESTOMATIO_RUN = None, TESTOMATIO = Some ''key'', TESTOMATIO_TITLE = None,
      initial_runId = None, sep = ''/'',
      parses_as_URL = (\<lambda>s. contains s ''://''),
      chalk = (\<lambda>styles s. s),
      renderSync = (\<lambda>e f. No_record),
      uploadFile = (\<lambda>file rid. Inr (rid @ ''/'' @ file)),
      transport = (\<lambda>n r. Inr \<lparr>resp_status = 200,
         resp_data = Some \<lparr>data_uid = Some ''run1'',
           data_url = Some ''https://app.testomat.io/projects/demo/runs/run1'',
           data_message = None\<rparr>\<rparr>)\<rparr>"

definition offline_world :: world where
  "offline_world = plain_world\<lparr>transport := (\<lambda>n r. Inl (AxiosError None))\<rparr>"

definition resumed_world :: world where
  "resumed_world = plain_world\<lparr>TESTOMATIO_RUN := Some ''run7''\<rparr>"

definition unreachable_world :: world where
  "unreachable_world = offline_world\<lparr>TESTOMATIO_RUN := Some ''run7''\<rparr>"

definition no_params :: params where
  "no_params = \<lparr>params_apiKey = None, params_title = None, params_parallel = None\<rparr>"

section \<open>Scenarios\<close>

text \<open>
  An external run whose update fails, followed by one test result: the calls, then the
  event loop until nothing is left. \<open>resume_then_report\<close> is the same with the service
  answering.
\<close>

definition resume_fails_then_report :: client where
  "resume_fails_then_report =
     exec unreachable_world
       [Call Call_createRun, Call (Call_addTestRun (Some ''t1'') ''passed'' None),
        Tick, Tick, Tick, Tick, Tick]
       (TestomatClient unreachable_world no_params)"

definition resume_then_report :: client where
  "resume_then_report =
     exec resumed_world
       [Call Call_createRun, Call (Call_addTestRun (Some ''t1'') ''passed'' None),
        Tick, Tick, Tick, Tick, Tick]
       (TestomatClient resumed_world no_params)"

text \<open>
  An external run whose update fails, and nothing after it: \<open>createRun\<close> alone, then
  the event loop until nothing is left.
\<close>

definition resume_alone :: "event list" where
  "resume_alone = [Call Call_createRun, Tick, Tick]"

definition resume_fails_alone :: client where
  "resume_fails_alone =
     exec unreachable_world resume_alone (TestomatClient unreachable_world no_params)"

text \<open>The verbs and addresses of the requests sent, with the positions of their links.\<close>

definition operations :: "client \<Rightarrow> (nat \<times> http_method \<times> string) list" where
  "operations s = map (\<lambda>(k, r). (k, verb r, target r)) (issued (net s))"

text \<open>The test ids in the payloads sent.\<close>

definition sent_test_ids :: "client \<Rightarrow> string option list" where
  "sent_test_ids s =
     concat (map (\<lambda>(k, r). case body r of Test_run p \<Rightarrow> [p_test_id p] | _ \<Rightarrow> [])
       (issued (net s)))"

text \<open>A result reported with the explicit test id \<open>T1\<close> and the embedded one \<open>T2\<close>.\<close>

definition embedded_T2 :: test_data where
  "embedded_T2 = no_test_data\<lparr>td_test_id := Some ''T2''\<rparr>"

definition explicit_and_embedded :: client where
  "explicit_and_embedded =
     exec resumed_world
       [Call (Call_addTestRun (Some ''T1'') ''passed'' (Some embedded_T2)),
        Tick, Tick, Tick]
       (TestomatClient resumed_world no_params)"

text \<open>A failed comparison of \<open>foo\<close> with the expected \<open>bar\<close>.\<close>

definition failed_comparison :: test_data where
  "failed_comparison = no_test_data\<lparr>td_error :=
     Some \<lparr>err_message = Some ''boom'', err_inspect = None,
           err_actual = Some ''foo'', err_expected = Some ''bar''\<rparr>\<rparr>"

text \<open>Some line that carries \<open>p\<close> comes before a later line that carries \<open>q\<close>.\<close>

fun followed_by :: "string \<Rightarrow> string \<Rightarrow> string list \<Rightarrow> bool" where
  "followed_by p q [] = False"
| "followed_by p q (l # ls) =
     ((contains l p \<and> list_ex (\<lambda>m. contains m q) ls) \<or> followed_by p q ls)"

text \<open>A client with no external run id whose creation of the run has failed.\<close>

definition creation_failed :: client where
  "creation_failed =
     exec offline_world [Call Call_createRun, Tick, Tick]
       (TestomatClient offline_world no_params)"

text \<open>A result that comes with a file.\<close>

definition with_screenshot :: test_data where
  "with_screenshot = no_test_data\<lparr>td_files := Some [''shot.png''], td_title := Some ''login''\<rparr>"

text \<open>A client that has asked for a new run and has not heard of it yet.\<close>

definition before_run_id :: client where
  "before_run_id =
     exec plain_world [Call Call_createRun] (TestomatClient plain_world no_params)"

section \<open>Invariants of the chain\<close>

text \<open>The running link has sent its request and waits for the answer.\<close>

definition awaiting :: "client \<Rightarrow> bool" where
  "awaiting s = (case running s of Some (Await_response t r) \<Rightarrow> True | _ \<Rightarrow> False)"

text \<open>
  The log of the transport is serial: at no time are two requests unanswered, a request
  in flight belongs to the running link, and the requests carry increasing positions,
  all of links that have started.
\<close>

definition serial :: "client \<Rightarrow> bool" where
  "serial s =
     ((\<forall>n. in_flight (take n (net s)) \<le> 1)
      \<and> length (issued (net s)) = replies (net s) + (if awaiting s then 1 else 0)
      \<and> sorted_wrt (<) (map fst (issued (net s)))
      \<and> (\<forall>k\<in>set (map fst (issued (net s))).
            k < length (settlements s) + (if awaiting s then 1 else 0)))"

text \<open>
  The requests the transport has seen followed by those the links on the chain will
  send, if the chain stays fulfilled.
\<close>

definition planned :: "world \<Rightarrow> client \<Rightarrow> request list" where
  "planned w s = map snd (issued (net s))
     @ (case running s of
          Some (Await_uploads c key) \<Rightarrow> sends w (runId s) key (Add_test_run c)
        | _ \<Rightarrow> [])
     @ concat (map (sends w (runId s) (apiKey s)) (pending s))"

text \<open>The chain is fulfilled and holds reporting links only.\<close>

definition steady :: "client \<Rightarrow> bool" where
  "steady s =
     ((\<exists>v. queue s = Fulfilled v)
      \<and> (\<forall>t\<in>set (pending s). reporting t)
      \<and> (case running s of
            None \<Rightarrow> True
          | Some (Await_uploads c key) \<Rightarrow> truthy (runId s)
          | Some (Await_response t r) \<Rightarrow> reporting t))"

text \<open>A call of \<open>addTestRun\<close> from its three arguments.\<close>

definition add_call :: "string option \<times> string \<times> test_data option \<Rightarrow> call" where
  "add_call a = (case a of (testId, st, testData) \<Rightarrow> Call_addTestRun testId st testData)"

text \<open>
  The link whose turn it is on a chain that is not idle, the links behind it, and what
  one turn of the event loop makes of it.
\<close>

definition front :: "client \<Rightarrow> link" where
  "front s = (case running s of Some ph \<Rightarrow> Running ph | None \<Rightarrow> Waiting (hd (pending s)))"

definition behind :: "client \<Rightarrow> link list" where
  "behind s = map Waiting (case running s of Some ph \<Rightarrow> pending s | None \<Rightarrow> tl (pending s))"

definition moved :: "world \<Rightarrow> client \<Rightarrow> link" where
  "moved w s =
     (case running (tick w s) of Some ph \<Rightarrow> Running ph | None \<Rightarrow> Settled (queue (tick w s)))"

text \<open>
  A chain without a run id, fulfilled, with no link running and reporting links only:
  what is left when the run was never created or its creation failed.
\<close>

definition dormant :: "client \<Rightarrow> bool" where
  "dormant s =
     (\<not> truthy (runId s) \<and> (\<exists>v. queue s = Fulfilled v) \<and> running s = None
      \<and> (\<forall>t\<in>set (pending s). reporting t))"

text \<open>A reporting link that waits, or a link settled with no value.\<close>

fun passed_over :: "link \<Rightarrow> bool" where
  "passed_over (Settled r) = (r = Fulfilled None)"
| "passed_over (Running ph) = False"
| "passed_over (Waiting t) = reporting t"

fun no_op :: "client \<Rightarrow> ret \<Rightarrow> bool" where
  "no_op s (Returns_queue k) = (k < length (chain s) \<and> passed_over (chain s ! k))"
| "no_op s r = False"

text \<open>A request that posts a test result with these files and no artifacts.\<close>

definition bare :: "string list \<Rightarrow> request \<Rightarrow> bool" where
  "bare files r =
     (case body r of Test_run p \<Rightarrow> p_artifacts p = [] \<and> p_files p = files | _ \<Rightarrow> False)"

text \<open>
  The link of the captured variables \<open>c\<close> as it moves along the chain: it waits, it
  awaits its uploads, its request is bare, or it has settled.
\<close>

fun travels :: "test_run \<Rightarrow> link \<Rightarrow> bool" where
  "travels c (Settled r) = True"
| "travels c (Running (Await_uploads c' key)) = (c' = c)"
| "travels c (Running (Await_response t r)) = (t = Add_test_run c \<and> bare (c_files c) r)"
| "travels c (Waiting t) = (t = Add_test_run c)"

text \<open>
  The uploads and the requests carry positions of links that exist; the link at
  position \<open>k\<close> is the one of \<open>c\<close>, no upload carries its position and a request that
  does is bare.
\<close>

definition late :: "nat \<Rightarrow> test_run \<Rightarrow> client \<Rightarrow> bool" where
  "late k c s =
     (k < length (chain s) \<and> travels c (chain s ! k)
      \<and> (\<forall>u\<in>set (uploads s). fst u < length (chain s) \<and> fst u \<noteq> k)
      \<and> (\<forall>x\<in>set (issued (net s)). fst x = k \<longrightarrow> bare (c_files c) (snd x)))"

text \<open>The uploads and the requests carry positions of links that exist.\<close>

definition tagged :: "client \<Rightarrow> bool" where
  "tagged s =
     ((\<forall>u\<in>set (uploads s). fst u < length (chain s))
      \<and> (\<forall>x\<in>set (issued (net s)). fst x < length (chain s)))"

section \<open>General facts\<close>

lemmas basic_defs = settle_with_def issue_def say_def enqueue_def

lemmas handler_defs = createRun_catch_def addTestRun_catch_def updateRunStatus_catch_def
  after_uploads_def report_created_def

lemmas request_defs = put_run_request_def create_run_request_def testrun_request_def
  status_request_def

lemmas world_defs = plain_world_def offline_world_def resumed_world_def unreachable_world_def
  no_params_def TestomatClient_def loaded_runId_def TESTOMAT_URL_def isValidUrl_def

lemmas value_defs = truthy_def js_string_def or_else_def trim_def is_space_def nl_def

lemmas call_defs = createRun_def addTestRun_def updateRunStatus_def closure_def
  diagnostic_def no_test_data_def chained_def idle_def tick_def uploaded_def

lemma drain_stop: "idle s \<Longrightarrow> drain w s = s"
  by (simp add: drain.simps)

lemma drain_step: "\<not> idle s \<Longrightarrow> drain w s = drain w (tick w s)"
  by (simp add: drain.simps)

lemma drain_idle: "idle (drain w s)"
  by (induction w s rule: drain.induct) (simp add: drain.simps)

lemma drain_is_exec: "\<exists>n. drain w s = exec w (replicate n Tick) s"
proof (induction w s rule: drain.induct)
  case (1 w s)
  show ?case
  proof (cases "idle s")
    case True
    then have "drain w s = exec w (replicate 0 Tick) s"
      by (simp add: drain_stop)
    then show ?thesis by blast
  next
    case False
    with 1 obtain n where "drain w (tick w s) = exec w (replicate n Tick) (tick w s)"
      by blast
    with False have "drain w s = exec w (replicate (Suc n) Tick) s"
      by (simp add: drain_step)
    then show ?thesis by blast
  qed
qed

lemma exec_append: "exec w (es @ fs) s = exec w fs (exec w es s)"
  by (induction w es s rule: exec.induct) auto

lemma returned_append:
  "returned w (es @ fs) s = returned w es s @ returned w fs (exec w es s)"
  by (induction w es s rule: returned.induct) auto

lemma returned_ticks [simp]: "returned w (replicate n Tick) s = []"
  by (induction n arbitrary: s) auto

lemma calls_append [simp]: "calls (es @ fs) = calls es @ calls fs"
  by (induction es rule: calls.induct) auto

lemma calls_ticks [simp]: "calls (replicate n Tick) = []"
  by (induction n) auto

lemma issued_append [simp]: "issued (xs @ ys) = issued xs @ issued ys"
  by (induction xs rule: issued.induct) auto

lemma replies_append [simp]: "replies (xs @ ys) = replies xs + replies ys"
  by (induction xs rule: replies.induct) auto

subsection \<open>One request at a time\<close>

lemma tick_net:
  "(net (tick w s) = net s \<and> \<not> awaiting (tick w s) \<and> \<not> awaiting s
      \<and> length (settlements s) \<le> length (settlements (tick w s)))
   \<or> (\<exists>r. \<not> awaiting s \<and> awaiting (tick w s)
        \<and> net (tick w s) = net s @ [Issue (length (settlements s)) r]
        \<and> settlements (tick w s) = settlements s)
   \<or> (\<exists>out. awaiting s \<and> \<not> awaiting (tick w s)
        \<and> net (tick w s) = net s @ [Reply (length (settlements s)) out]
        \<and> length (settlements (tick w s)) = Suc (length (settlements s)))"
proof (cases "running s")
  case None
  show ?thesis
  proof (cases "pending s")
    case Nil
    with None show ?thesis by (simp add: tick_def awaiting_def)
  next
    case (Cons t ts)
    with None show ?thesis
      by (cases "queue s"; cases t)
         (auto simp: tick_def awaiting_def basic_defs handler_defs split: option.splits)
  qed
next
  case (Some ph)
  show ?thesis
  proof (cases ph)
    case (Await_uploads c key)
    with Some show ?thesis
      by (auto simp: tick_def awaiting_def basic_defs handler_defs
               split: option.splits sum.splits)
  next
    case (Await_response t r)
    with Some show ?thesis
      by (cases t)
         (auto simp: tick_def awaiting_def basic_defs handler_defs
               split: option.splits sum.splits)
  qed
qed

lemma perform_frame:
  "net (snd (perform w c s)) = net s \<and> running (snd (perform w c s)) = running s
   \<and> settlements (snd (perform w c s)) = settlements s
   \<and> queue (snd (perform w c s)) = queue s
   \<and> apiKey (snd (perform w c s)) = apiKey s"
  by (cases c) (auto simp: createRun_def addTestRun_def updateRunStatus_def basic_defs Let_def
       split: option.splits)

lemma in_flight_snoc:
  assumes "\<forall>n. in_flight (take n xs) \<le> 1" and "in_flight (xs @ [e]) \<le> 1"
  shows "in_flight (take n (xs @ [e])) \<le> 1"
proof (cases "n \<le> length xs")
  case True
  then show ?thesis using assms(1) by simp
next
  case False
  then show ?thesis using assms(2) by simp
qed

lemma serial_tick:
  assumes "serial s"
  shows "serial (tick w s)"
proof -
  from assms have a: "\<forall>n. in_flight (take n (net s)) \<le> 1"
    and b: "length (issued (net s)) = replies (net s) + (if awaiting s then 1 else 0)"
    and c: "sorted_wrt (<) (map fst (issued (net s)))"
    and d: "\<forall>k\<in>set (map fst (issued (net s))).
              k < length (settlements s) + (if awaiting s then 1 else 0)"
    by (simp_all add: serial_def)
  consider
    (quiet) "net (tick w s) = net s" "\<not> awaiting (tick w s)" "\<not> awaiting s"
      "length (settlements s) \<le> length (settlements (tick w s))"
  | (request) r where "\<not> awaiting s" "awaiting (tick w s)"
      "net (tick w s) = net s @ [Issue (length (settlements s)) r]"
      "settlements (tick w s) = settlements s"
  | (answer) out where "awaiting s" "\<not> awaiting (tick w s)"
      "net (tick w s) = net s @ [Reply (length (settlements s)) out]"
      "length (settlements (tick w s)) = Suc (length (settlements s))"
    using tick_net [of w s] by blast
  then show ?thesis
  proof cases
    case quiet
    have "\<forall>k\<in>set (map fst (issued (net s))). k < length (settlements (tick w s))"
      using d quiet by fastforce
    then show ?thesis
      using a b c quiet by (simp add: serial_def)
  next
    case (request r)
    have "in_flight (net s @ [Issue (length (settlements s)) r]) \<le> 1"
      using b request by (simp add: in_flight_def)
    then have "\<forall>n. in_flight (take n (net (tick w s))) \<le> 1"
      using a request in_flight_snoc by metis
    moreover have "sorted_wrt (<) (map fst (issued (net (tick w s))))"
      using c d request by (simp add: sorted_wrt_append)
    moreover have "\<forall>k\<in>set (map fst (issued (net (tick w s)))).
        k < length (settlements (tick w s)) + 1"
      using d request by auto
    ultimately show ?thesis
      using b request by (simp add: serial_def)
  next
    case (answer out)
    have "in_flight (net s @ [Reply (length (settlements s)) out]) \<le> 1"
      using b answer by (simp add: in_flight_def)
    then have "\<forall>n. in_flight (take n (net (tick w s))) \<le> 1"
      using a answer in_flight_snoc by metis
    moreover have "\<forall>k\<in>set (map fst (issued (net (tick w s)))).
        k < length (settlements (tick w s))"
      using d answer by auto
    ultimately show ?thesis
      using b c answer by (simp add: serial_def)
  qed
qed

lemma serial_perform: "serial s \<Longrightarrow> serial (snd (perform w c s))"
  using perform_frame [of w c s] by (simp add: serial_def awaiting_def)

lemma serial_exec: "serial s \<Longrightarrow> serial (exec w es s)"
  by (induction w es s rule: exec.induct) (auto simp: serial_tick serial_perform)

lemma serial_fresh: "serial (TestomatClient w ps)"
  by (simp add: serial_def TestomatClient_def awaiting_def in_flight_def)

lemma serial_drain: "serial s \<Longrightarrow> serial (drain w s)"
  using drain_is_exec [of w s] serial_exec by metis

subsection \<open>A fulfilled chain of reporting links\<close>

lemma promise_all_Inl: "promise_all xs = Inl e \<Longrightarrow> Inl e \<in> set xs"
  by (induction xs rule: promise_all.induct) (auto split: sum.splits)

lemma uploaded_benign:
  assumes "reporting_errors_only w" and "uploaded w c = Inl e"
  shows "benign e"
proof -
  from assms(2) have "Inl e \<in> set (map (\<lambda>(file, rid). uploadFile w file rid) (c_uploadedFiles c))"
    unfolding uploaded_def by (rule promise_all_Inl)
  then obtain f rid where "uploadFile w f rid = Inl e" by auto
  with assms(1) show ?thesis by (auto simp: reporting_errors_only_def)
qed

lemma transport_benign:
  "reporting_errors_only w \<Longrightarrow> transport w k r = Inl e \<Longrightarrow> benign e"
  by (auto simp: reporting_errors_only_def)

lemma addTestRun_catch_benign:
  "benign e \<Longrightarrow> \<exists>l. addTestRun_catch ttl e s = settle_with (Fulfilled None) (say l s)"
  by (auto simp: addTestRun_catch_def benign_def split: option.splits)

lemma tick_steady:
  assumes "steady s" and "reporting_errors_only w"
  shows "steady (tick w s) \<and> runId (tick w s) = runId s \<and> apiKey (tick w s) = apiKey s
    \<and> planned w (tick w s) = planned w s"
proof (cases "running s")
  case None
  show ?thesis
  proof (cases "pending s")
    case Nil
    with None assms show ?thesis by (simp add: tick_def)
  next
    case (Cons t ts)
    from assms(1) obtain v where q: "queue s = Fulfilled v" by (auto simp: steady_def)
    from assms(1) Cons have "reporting t" "\<forall>t\<in>set ts. reporting t" by (auto simp: steady_def)
    then show ?thesis using None Cons q
      by (cases t) (auto simp: tick_def steady_def planned_def basic_defs)
  qed
next
  case (Some ph)
  show ?thesis
  proof (cases ph)
    case (Await_uploads c key)
    show ?thesis
    proof (cases "uploaded w c")
      case (Inl e)
      then have "benign e" using assms(2) uploaded_benign by blast
      then obtain l where "addTestRun_catch (c_title c) e s = settle_with (Fulfilled None) (say l s)"
        using addTestRun_catch_benign by blast
      then show ?thesis using Some Await_uploads Inl assms(1)
        by (auto simp: tick_def steady_def planned_def basic_defs after_uploads_def)
    next
      case (Inr arts)
      then show ?thesis using Some Await_uploads assms(1)
        by (auto simp: tick_def steady_def planned_def basic_defs after_uploads_def)
    qed
  next
    case (Await_response t r)
    let ?out = "transport w (length (settlements s)) r"
    let ?s = "s\<lparr>net := net s @ [Reply (length (settlements s)) ?out]\<rparr>"
    have t: "tick w s = respond w t ?out ?s"
      using Some Await_response by (simp add: tick_def)
    from assms(1) Some Await_response have rep: "reporting t" by (simp add: steady_def)
    show ?thesis
    proof (cases t)
      case (Add_test_run c)
      show ?thesis
      proof (cases ?out)
        case (Inl e)
        then have "benign e" using assms(2) transport_benign by blast
        then obtain l where "addTestRun_catch (c_title c) e ?s = settle_with (Fulfilled None) (say l ?s)"
          using addTestRun_catch_benign by blast
        then show ?thesis using Some Await_response Add_test_run Inl assms(1)
          by (auto simp: t steady_def planned_def basic_defs)
      next
        case (Inr resp)
        then show ?thesis using Some Await_response Add_test_run assms(1)
          by (auto simp: t steady_def planned_def basic_defs)
      qed
    next
      case (Update_run_status st par)
      then show ?thesis using Some Await_response assms(1)
        by (auto simp: t steady_def planned_def basic_defs updateRunStatus_catch_def split: sum.splits)
    qed (use rep in auto)
  qed
qed

lemma perform_steady:
  assumes "steady s" and "reports c"
  shows "steady (snd (perform w c s)) \<and> runId (snd (perform w c s)) = runId s
    \<and> apiKey (snd (perform w c s)) = apiKey s
    \<and> planned w (snd (perform w c s))
      = planned w s @ concat (map (sends w (runId s) (apiKey s)) (link_of w (runId s) c))"
  using assms
  by (cases c)
     (auto simp: steady_def planned_def addTestRun_def updateRunStatus_def Let_def enqueue_def
        split: option.splits phase.splits)

lemma exec_steady:
  "reporting_errors_only w \<Longrightarrow> steady s \<Longrightarrow> \<forall>c\<in>set (calls es). reports c \<Longrightarrow>
    steady (exec w es s) \<and> runId (exec w es s) = runId s \<and> apiKey (exec w es s) = apiKey s
    \<and> planned w (exec w es s)
      = planned w s @ concat (map (sends w (runId s) (apiKey s))
                                 (concat (map (link_of w (runId s)) (calls es))))"
proof (induction w es s rule: exec.induct)
  case (1 w s)
  then show ?case by simp
next
  case (2 w es s)
  then show ?case using tick_steady [of s w] by simp
next
  case (3 w c es s)
  then show ?case using perform_steady [of s c w] by simp
qed

subsection \<open>Positions on the chain\<close>

lemma tick_chained: "chained (tick w s) = chained s"
proof (cases "running s")
  case None
  show ?thesis
  proof (cases "pending s")
    case Nil
    with None show ?thesis by (simp add: tick_def)
  next
    case (Cons t ts)
    with None show ?thesis
      by (cases "queue s"; cases t)
         (auto simp: tick_def chained_def basic_defs handler_defs split: option.splits)
  qed
next
  case (Some ph)
  show ?thesis
  proof (cases ph)
    case (Await_uploads c key)
    with Some show ?thesis
      by (auto simp: tick_def chained_def basic_defs handler_defs
               split: option.splits sum.splits)
  next
    case (Await_response t r)
    with Some show ?thesis
      by (cases t)
         (auto simp: tick_def chained_def basic_defs handler_defs
               split: option.splits sum.splits)
  qed
qed

lemma perform_chained:
  "reports c \<Longrightarrow> chained (snd (perform w c s)) = Suc (chained s)"
  by (cases c) (auto simp: addTestRun_def updateRunStatus_def chained_def enqueue_def Let_def)

lemma exec_chained:
  "\<forall>c\<in>set (calls es). reports c \<Longrightarrow> chained (exec w es s) = chained s + length (calls es)"
  by (induction w es s rule: exec.induct) (auto simp: tick_chained perform_chained)

lemma last_by_position:
  fixes k :: nat
  assumes "sorted_wrt (<) (map fst xs)" and "(k, r) \<in> set xs" and "\<forall>x\<in>set xs. fst x \<le> k"
  shows "last xs = (k, r)"
proof -
  from assms(2) obtain ys zs where xs: "xs = ys @ (k, r) # zs"
    by (auto dest: split_list)
  have "zs = []"
  proof (rule ccontr)
    assume "zs \<noteq> []"
    then obtain z where z: "z \<in> set zs" by (cases zs) auto
    with assms(1) xs have "k < fst z" by (auto simp: sorted_wrt_append)
    moreover from z xs assms(3) have "fst z \<le> k" by auto
    ultimately show False by simp
  qed
  with xs show ?thesis by simp
qed

lemma planned_idle: "idle s \<Longrightarrow> planned w s = map snd (issued (net s))"
  by (simp add: planned_def idle_def)

lemma reports_add_calls: "\<forall>c\<in>set (map add_call adds). reports c"
  by (auto simp: add_call_def)

subsection \<open>The links of the chain, one by one\<close>

lemma chain_length: "length (chain s) = chained s"
  by (simp add: chain_def chained_def split: option.splits)

lemma tick_effect:
  assumes "\<not> idle s"
  shows "pending (tick w s) = (case running s of None \<Rightarrow> tl (pending s) | Some ph \<Rightarrow> pending s)
    \<and> ((running (tick w s) = None
          \<and> settlements (tick w s) = settlements s @ [queue (tick w s)])
        \<or> (running (tick w s) \<noteq> None \<and> settlements (tick w s) = settlements s))"
proof (cases "running s")
  case None
  with assms obtain t ts where p: "pending s = t # ts"
    by (cases "pending s") (auto simp: idle_def)
  show ?thesis
    using None p
    by (cases "queue s"; cases t)
       (auto simp: tick_def basic_defs handler_defs split: option.splits)
next
  case (Some ph)
  show ?thesis
  proof (cases ph)
    case (Await_uploads c key)
    with Some show ?thesis
      by (auto simp: tick_def basic_defs handler_defs split: option.splits sum.splits)
  next
    case (Await_response t r)
    with Some show ?thesis
      by (cases t)
         (auto simp: tick_def basic_defs handler_defs split: option.splits sum.splits)
  qed
qed

lemma chain_front:
  assumes "\<not> idle s"
  shows "chain s = map Settled (settlements s) @ front s # behind s"
proof (cases "running s")
  case None
  with assms obtain t ts where p: "pending s = t # ts"
    by (cases "pending s") (auto simp: idle_def)
  with None show ?thesis by (simp add: chain_def front_def behind_def)
next
  case (Some ph)
  then show ?thesis by (simp add: chain_def front_def behind_def)
qed

lemma chain_tick:
  assumes "\<not> idle s"
  shows "chain s = map Settled (settlements s) @ front s # behind s
    \<and> chain (tick w s) = map Settled (settlements s) @ moved w s # behind s"
proof -
  have "chain (tick w s) = map Settled (settlements s) @ moved w s # behind s"
    using tick_effect [OF assms, of w]
    by (auto simp: chain_def moved_def behind_def split: option.splits)
  then show ?thesis using chain_front [OF assms] by simp
qed

lemma nth_replaced:
  assumes "P ((xs @ x # ys) ! k)" and "P x \<Longrightarrow> P y"
  shows "P ((xs @ y # ys) ! k)"
  using assms by (cases "k < length xs"; cases "k = length xs") (auto simp: nth_append)

lemma chain_tick_keeps:
  assumes "k < length (chain s)" and "P (chain s ! k)"
    and "\<not> idle s \<Longrightarrow> P (front s) \<Longrightarrow> P (moved w s)"
  shows "k < length (chain (tick w s)) \<and> P (chain (tick w s) ! k)"
proof (cases "idle s")
  case True
  then have "tick w s = s" by (simp add: idle_def tick_def)
  with assms show ?thesis by simp
next
  case False
  note ct = chain_tick [OF False, of w]
  have "length (chain (tick w s)) = length (chain s)"
    using ct by (metis length_append length_Cons)
  moreover have "P (chain (tick w s) ! k)"
    using ct assms(2) assms(3) [OF False] nth_replaced [of P "map Settled (settlements s)" "front s" "behind s" k "moved w s"]
    by metis
  ultimately show ?thesis using assms(1) by simp
qed

subsection \<open>What a call and a turn leave as it was\<close>

lemma tick_frame: "apiKey (tick w s) = apiKey s \<and> uploads (tick w s) = uploads s"
proof (cases "running s")
  case None
  show ?thesis
  proof (cases "pending s")
    case Nil
    with None show ?thesis by (simp add: tick_def)
  next
    case (Cons t ts)
    with None show ?thesis
      by (cases "queue s"; cases t)
         (auto simp: tick_def basic_defs handler_defs split: option.splits)
  qed
next
  case (Some ph)
  show ?thesis
  proof (cases ph)
    case (Await_uploads c key)
    with Some show ?thesis
      by (auto simp: tick_def basic_defs handler_defs split: option.splits sum.splits)
  next
    case (Await_response t r)
    with Some show ?thesis
      by (cases t)
         (auto simp: tick_def basic_defs handler_defs split: option.splits sum.splits)
  qed
qed

lemma perform_chain: "\<exists>ts. chain (snd (perform w c s)) = chain s @ map Waiting ts"
proof (cases c)
  case Call_createRun
  have "chain (snd (createRun w s)) = chain s @ map Waiting []
      \<or> (\<exists>t. chain (snd (createRun w s)) = chain s @ map Waiting [t])"
    by (auto simp: createRun_def chain_def enqueue_def say_def Let_def split: option.splits)
  then show ?thesis using Call_createRun by (metis perform.simps(1))
next
  case (Call_addTestRun testId st testData)
  have "\<exists>t. chain (snd (addTestRun w testId st testData s)) = chain s @ map Waiting [t]"
    by (auto simp: addTestRun_def chain_def enqueue_def Let_def)
  then show ?thesis using Call_addTestRun by (metis perform.simps(2))
next
  case (Call_updateRunStatus st par)
  have "\<exists>t. chain (snd (updateRunStatus st par s)) = chain s @ map Waiting [t]"
    by (auto simp: updateRunStatus_def chain_def enqueue_def)
  then show ?thesis using Call_updateRunStatus by (metis perform.simps(3))
qed

lemma perform_keeps:
  assumes "k < length (chain s)" and "P (chain s ! k)"
  shows "k < length (chain (snd (perform w c s))) \<and> P (chain (snd (perform w c s)) ! k)"
  using perform_chain [of w c s] assms by (auto simp: nth_append)

subsection \<open>A chain without a run id\<close>

lemma tick_dormant:
  assumes "dormant s"
  shows "dormant (tick w s) \<and> net (tick w s) = net s
    \<and> (\<not> idle s \<longrightarrow> passed_over (front s) \<longrightarrow> passed_over (moved w s))"
proof (cases "pending s")
  case Nil
  with assms show ?thesis by (simp add: dormant_def tick_def idle_def)
next
  case (Cons t ts)
  from assms obtain v where q: "queue s = Fulfilled v" and r: "running s = None"
    and n: "\<not> truthy (runId s)" and rep: "reporting t" "\<forall>t\<in>set ts. reporting t"
    using Cons by (auto simp: dormant_def)
  then show ?thesis
    using Cons by (cases t) (simp_all add: dormant_def tick_def moved_def basic_defs)
qed

lemma perform_dormant:
  assumes "dormant s" and "reports c"
  shows "dormant (snd (perform w c s)) \<and> net (snd (perform w c s)) = net s
    \<and> uploads (snd (perform w c s)) = uploads s
    \<and> no_op (snd (perform w c s)) (fst (perform w c s))"
  using assms
  by (cases c)
     (auto simp: dormant_def addTestRun_def updateRunStatus_def closure_def Let_def enqueue_def
        chain_def chained_def nth_append split: prod.splits)

lemma no_op_tick:
  assumes "dormant s" and "no_op s r"
  shows "no_op (tick w s) r"
proof (cases r)
  case (Returns_queue k)
  with assms(2) have "k < length (chain s)" "passed_over (chain s ! k)" by simp_all
  then have "k < length (chain (tick w s)) \<and> passed_over (chain (tick w s) ! k)"
    using tick_dormant [OF assms(1), of w] by (intro chain_tick_keeps) simp_all
  with Returns_queue show ?thesis by simp
qed (use assms(2) in auto)

lemma no_op_perform:
  assumes "no_op s r"
  shows "no_op (snd (perform w c s)) r"
proof (cases r)
  case (Returns_queue k)
  with assms have "k < length (chain s)" "passed_over (chain s ! k)" by simp_all
  then have "k < length (chain (snd (perform w c s)))
      \<and> passed_over (chain (snd (perform w c s)) ! k)"
    by (rule perform_keeps)
  with Returns_queue show ?thesis by simp
qed (use assms in auto)

lemma exec_dormant:
  "dormant s \<Longrightarrow> \<forall>c\<in>set (calls es). reports c \<Longrightarrow> \<forall>r\<in>set rets. no_op s r
   \<Longrightarrow> dormant (exec w es s) \<and> net (exec w es s) = net s \<and> uploads (exec w es s) = uploads s
     \<and> (\<forall>r\<in>set (rets @ returned w es s). no_op (exec w es s) r)"
proof (induction w es s arbitrary: rets rule: exec.induct)
  case (1 w s)
  then show ?case by simp
next
  case (2 w es s)
  have "\<forall>r\<in>set rets. no_op (tick w s) r"
    using 2 no_op_tick by blast
  then show ?case
    using 2 tick_dormant [of s w] tick_frame [of w s] by simp
next
  case (3 w c es s)
  let ?s = "snd (perform w c s)"
  have c: "reports c" using 3 by simp
  have "\<forall>r\<in>set (rets @ [fst (perform w c s)]). no_op ?s r"
    using 3 no_op_perform perform_dormant [OF 3(2) c, of w] by auto
  moreover have "dormant ?s" using perform_dormant [OF 3(2) c] by simp
  ultimately have "dormant (exec w es ?s) \<and> net (exec w es ?s) = net ?s
      \<and> uploads (exec w es ?s) = uploads ?s
      \<and> (\<forall>r\<in>set ((rets @ [fst (perform w c s)]) @ returned w es ?s). no_op (exec w es ?s) r)"
    using 3 by (intro "3.IH") simp_all
  then show ?case
    using perform_dormant [OF 3(2) c, of w] by simp
qed

lemma no_op_idle: "idle s \<Longrightarrow> no_op s r \<Longrightarrow> resolved_empty s r"
  by (cases r) (auto simp: chain_def idle_def)

subsection \<open>A result reported before the run id is known\<close>

lemma uploaded_none: "c_uploadedFiles c = [] \<Longrightarrow> uploaded w c = Inr []"
  by (simp add: uploaded_def)

lemma bare_testrun_request [simp]: "bare (c_files c) (testrun_request w rid key c [])"
  by (simp add: bare_def testrun_request_def)

lemma tick_issue:
  "issued (net (tick w s)) = issued (net s)
   \<or> (\<exists>r. issued (net (tick w s)) = issued (net s) @ [(length (settlements s), r)]
         \<and> (case front s of
               Waiting t \<Rightarrow> \<forall>c. t \<noteq> Add_test_run c
             | Running (Await_uploads c key) \<Rightarrow>
                 \<exists>artifacts. uploaded w c = Inr artifacts
                   \<and> r = testrun_request w (runId s) key c artifacts
             | _ \<Rightarrow> False))"
proof (cases "running s")
  case None
  show ?thesis
  proof (cases "pending s")
    case Nil
    with None show ?thesis by (simp add: tick_def)
  next
    case (Cons t ts)
    with None show ?thesis
      by (cases "queue s"; cases t)
         (auto simp: tick_def front_def basic_defs handler_defs split: option.splits)
  qed
next
  case (Some ph)
  show ?thesis
  proof (cases ph)
    case (Await_uploads c key)
    with Some show ?thesis
      by (auto simp: tick_def front_def basic_defs handler_defs split: option.splits sum.splits)
  next
    case (Await_response t r)
    with Some show ?thesis
      by (cases t)
         (auto simp: tick_def front_def basic_defs handler_defs split: option.splits sum.splits)
  qed
qed

lemma travels_tick:
  assumes "c_uploadedFiles c = []" and "\<not> idle s" and "travels c (front s)"
  shows "travels c (moved w s)"
proof (cases "running s")
  case None
  with assms(2) obtain t ts where p: "pending s = t # ts"
    by (cases "pending s") (auto simp: idle_def)
  with None assms(3) have t: "t = Add_test_run c" by (simp add: front_def)
  show ?thesis
    using None p t
    by (cases "queue s")
       (auto simp: tick_def moved_def basic_defs addTestRun_catch_def split: option.splits)
next
  case (Some ph)
  show ?thesis
  proof (cases ph)
    case (Await_uploads c' key)
    with Some assms(3) have "c' = c" by (simp add: front_def)
    then show ?thesis
      using Some Await_uploads uploaded_none [OF assms(1), of w]
      by (simp add: tick_def moved_def after_uploads_def issue_def)
  next
    case (Await_response t r)
    let ?out = "transport w (length (settlements s)) r"
    have "running (tick w s) = None"
      using Some Await_response tick_effect [OF assms(2), of w] tick_net [of w s]
      by (auto simp: awaiting_def)
    then show ?thesis by (simp add: moved_def)
  qed
qed

lemma chain_at_front:
  "\<not> idle s \<Longrightarrow> chain s ! length (settlements s) = front s"
  using chain_front [of s] by (simp add: nth_append)

lemma late_tick:
  assumes "c_uploadedFiles c = []" and "late k c s"
  shows "late k c (tick w s)"
proof (cases "idle s")
  case True
  then have "tick w s = s" by (simp add: idle_def tick_def)
  with assms show ?thesis by simp
next
  case False
  from assms(2) have k: "k < length (chain s)" and tr: "travels c (chain s ! k)"
    and up: "\<forall>u\<in>set (uploads s). fst u < length (chain s) \<and> fst u \<noteq> k"
    and iss: "\<forall>x\<in>set (issued (net s)). fst x = k \<longrightarrow> bare (c_files c) (snd x)"
    by (simp_all add: late_def)
  have keeps: "k < length (chain (tick w s)) \<and> travels c (chain (tick w s) ! k)"
    using k tr travels_tick [OF assms(1)] by (rule chain_tick_keeps)
  have len: "length (chain (tick w s)) = length (chain s)"
    by (simp add: chain_length tick_chained)
  have "\<forall>x\<in>set (issued (net (tick w s))). fst x = k \<longrightarrow> bare (c_files c) (snd x)"
  proof (cases "issued (net (tick w s)) = issued (net s)")
    case True
    with iss show ?thesis by simp
  next
    case diff: False
    then obtain r where r: "issued (net (tick w s)) = issued (net s) @ [(length (settlements s), r)]"
      and how: "case front s of
               Waiting t \<Rightarrow> \<forall>c. t \<noteq> Add_test_run c
             | Running (Await_uploads c key) \<Rightarrow>
                 \<exists>artifacts. uploaded w c = Inr artifacts
                   \<and> r = testrun_request w (runId s) key c artifacts
             | _ \<Rightarrow> False"
      using tick_issue [of w s] by blast
    have "bare (c_files c) r" if "length (settlements s) = k"
    proof -
      have "travels c (front s)"
        using tr that chain_at_front [OF False] by simp
      then show ?thesis
        using how uploaded_none [OF assms(1), of w]
        by (cases "front s") (auto split: phase.splits)
    qed
    then show ?thesis using iss r by auto
  qed
  then show ?thesis
    using keeps up len tick_frame [of w s] by (simp add: late_def)
qed

lemma perform_uploads:
  "\<forall>u\<in>set (uploads (snd (perform w c' s))). u \<in> set (uploads s) \<or> fst u = length (chain s)"
  by (cases c')
     (auto simp: createRun_def addTestRun_def updateRunStatus_def basic_defs Let_def chain_length
        split: option.splits)

lemma perform_chain_grows:
  "length (chain s) \<le> length (chain (snd (perform w c' s)))
   \<and> (uploads (snd (perform w c' s)) \<noteq> uploads s
        \<longrightarrow> length (chain s) < length (chain (snd (perform w c' s))))"
  by (cases c')
     (auto simp: createRun_def addTestRun_def updateRunStatus_def basic_defs Let_def chain_length
        chained_def split: option.splits)

lemma late_perform:
  assumes "late k c s"
  shows "late k c (snd (perform w c' s))"
proof -
  let ?s = "snd (perform w c' s)"
  from assms have k: "k < length (chain s)" and tr: "travels c (chain s ! k)"
    and up: "\<forall>u\<in>set (uploads s). fst u < length (chain s) \<and> fst u \<noteq> k"
    and iss: "\<forall>x\<in>set (issued (net s)). fst x = k \<longrightarrow> bare (c_files c) (snd x)"
    by (simp_all add: late_def)
  have keeps: "k < length (chain ?s) \<and> travels c (chain ?s ! k)"
    using k tr by (rule perform_keeps)
  have "fst u < length (chain ?s) \<and> fst u \<noteq> k" if "u \<in> set (uploads ?s)" for u
  proof (cases "u \<in> set (uploads s)")
    case True
    then show ?thesis using up perform_chain_grows [of s w c'] by fastforce
  next
    case False
    with that have "fst u = length (chain s)" "uploads ?s \<noteq> uploads s"
      using perform_uploads [of w c' s] by auto
    then show ?thesis using k perform_chain_grows [of s w c'] by simp
  qed
  then show ?thesis
    using keeps iss perform_frame [of w c' s] by (simp add: late_def)
qed

lemma exec_late: "c_uploadedFiles c = [] \<Longrightarrow> late k c s \<Longrightarrow> late k c (exec w es s)"
  by (induction w es s rule: exec.induct) (auto simp: late_tick late_perform)

lemma tagged_tick: "serial s \<Longrightarrow> tagged s \<Longrightarrow> tagged (tick w s)"
  using tick_frame [of w s] serial_tick [of s w] tick_chained [of w s]
  by (auto simp: tagged_def serial_def chain_length chained_def awaiting_def
        split: option.splits phase.splits if_splits)

lemma tagged_perform: "tagged s \<Longrightarrow> tagged (snd (perform w c' s))"
  using perform_uploads [of w c' s] perform_chain_grows [of s w c'] perform_frame [of w c' s]
  by (fastforce simp: tagged_def)

lemma tagged_exec: "serial s \<Longrightarrow> tagged s \<Longrightarrow> tagged (exec w es s)"
  by (induction w es s rule: exec.induct)
     (auto simp: tagged_tick tagged_perform serial_tick serial_perform)

lemma tagged_fresh: "tagged (TestomatClient w ps)"
  by (simp add: tagged_def TestomatClient_def)

lemma late_start:
  assumes "tagged s" and "\<not> truthy (runId s)"
  shows "fst (addTestRun w testId st testData s) = Returns_queue (chained s)
    \<and> uploads (snd (addTestRun w testId st testData s)) = uploads s
    \<and> c_uploadedFiles (closure w (runId s) st
          (case testData of None \<Rightarrow> no_test_data | Some d \<Rightarrow> d)) = []
    \<and> late (chained s)
         (closure w (runId s) st (case testData of None \<Rightarrow> no_test_data | Some d \<Rightarrow> d))
         (snd (addTestRun w testId st testData s))"
proof -
  let ?c = "closure w (runId s) st (case testData of None \<Rightarrow> no_test_data | Some d \<Rightarrow> d)"
  let ?s = "snd (addTestRun w testId st testData s)"
  have none: "c_uploadedFiles ?c = []"
    using assms(2) by (simp add: closure_def Let_def split: prod.splits)
  have ch: "chain ?s = chain s @ [Waiting (Add_test_run ?c)]"
    by (simp add: addTestRun_def Let_def chain_def enqueue_def)
  have up: "uploads ?s = uploads s"
    using none by (simp add: addTestRun_def Let_def enqueue_def)
  have net: "net ?s = net s"
    by (simp add: addTestRun_def Let_def enqueue_def)
  have "late (chained s) ?c ?s"
    using assms(1) by (auto simp: late_def ch up net tagged_def chain_length [symmetric])
  then show ?thesis
    using none up by (simp add: addTestRun_def Let_def)
qed

lemma late_turn:
  assumes "c_uploadedFiles c = []" and "late k c s" and "length (settlements s) = k"
    and "running s = None" and "queue s = Fulfilled v" and "truthy (runId s)"
  shows "issued (net (tick w (tick w s)))
       = issued (net s) @ [(k, testrun_request w (runId s) (apiKey s) c [])]"
proof -
  from assms(2) have k: "k < length (chain s)" and tr: "travels c (chain s ! k)"
    by (simp_all add: late_def)
  from k assms(3,4) obtain t ts where p: "pending s = t # ts"
    by (cases "pending s") (auto simp: chain_def)
  with tr assms(3,4) have t: "t = Add_test_run c"
    by (simp add: chain_def nth_append)
  have one: "tick w s = s\<lparr>pending := ts, running := Some (Await_uploads c (apiKey s))\<rparr>"
    using p t assms(4,5,6) by (simp add: tick_def)
  show ?thesis
    unfolding one using assms(3) uploaded_none [OF assms(1), of w]
    by (simp add: tick_def after_uploads_def issue_def)
qed

subsection \<open>Serialisation\<close>





lemma object_at_root [simp]: "object_at (JObject fs) []"
  by (simp add: object_at_def)




section \<open>The order of the network operations\<close>

text \<open>
  C1. A client made by the constructor has been used in any way. Then come calls of
  \<open>addTestRun\<close> and at last one call of \<open>updateRunStatus\<close>, interleaved in any way
  with turns of the event loop, and the chain runs to its end. In the log of the
  transport no request was ever sent while another was unanswered; the requests carry
  the positions of their links in increasing order; a request of the status update,
  when there is one, is the last request sent. When the chain was idle and fulfilled
  before these calls and the only errors are those of reporting, the requests sent are
  exactly those the links of the calls send, in the order of the calls, and with a run
  id the last of them is the status update.
\<close>

theorem operations_in_enqueue_order:
  assumes "s0 = exec w before (TestomatClient w ps)"
    and "calls es = map add_call adds @ [Call_updateRunStatus st isParallel]"
  shows "(\<forall>n. in_flight (take n (net (drain w (exec w es s0)))) \<le> 1)
    \<and> sorted_wrt (<) (map fst (issued (net (drain w (exec w es s0)))))
    \<and> (\<forall>r. (chained s0 + length adds, r) \<in> set (issued (net (drain w (exec w es s0))))
          \<longrightarrow> last (issued (net (drain w (exec w es s0))))
              = (chained s0 + length adds, r))
    \<and> (idle s0 \<and> queue s0 = Fulfilled v \<and> reporting_errors_only w \<longrightarrow>
          map snd (issued (net (drain w (exec w es s0))))
          = map snd (issued (net s0))
            @ concat (map (sends w (runId s0) (apiKey s0))
                        (concat (map (link_of w (runId s0)) (map add_call adds))))
            @ sends w (runId s0) (apiKey s0) (Update_run_status st isParallel))
    \<and> (idle s0 \<and> queue s0 = Fulfilled v \<and> reporting_errors_only w \<and> truthy (runId s0) \<longrightarrow>
          last (map snd (issued (net (drain w (exec w es s0)))))
          = status_request w (runId s0) (apiKey s0) st isParallel)"
proof -
  let ?final = "drain w (exec w es s0)"
  obtain n where n: "?final = exec w (es @ replicate n Tick) s0"
    using drain_is_exec [of w "exec w es s0"] by (auto simp: exec_append)
  have rep: "\<forall>c\<in>set (calls (es @ replicate n Tick)). reports c"
    using assms(2) reports_add_calls by auto
  have idle: "idle ?final" by (rule drain_idle)
  have ser: "serial ?final"
    using assms(1) serial_fresh serial_exec serial_drain by simp
  then have one: "\<forall>n. in_flight (take n (net ?final)) \<le> 1"
    and sorted: "sorted_wrt (<) (map fst (issued (net ?final)))"
    and below: "\<forall>k\<in>set (map fst (issued (net ?final))). k < length (settlements ?final)"
    using idle by (auto simp: serial_def awaiting_def idle_def)
  have "chained ?final = chained s0 + length (calls (es @ replicate n Tick))"
    unfolding n using rep by (rule exec_chained)
  then have len: "length (settlements ?final) = Suc (chained s0 + length adds)"
    using idle assms(2) by (simp add: chained_def idle_def)
  have lastpos: "last (issued (net ?final)) = (chained s0 + length adds, r)"
    if "(chained s0 + length adds, r) \<in> set (issued (net ?final))" for r
    using sorted that
  proof (rule last_by_position)
    show "\<forall>x\<in>set (issued (net ?final)). fst x \<le> chained s0 + length adds"
      using below len by auto
  qed
  have plan: "map snd (issued (net ?final))
          = map snd (issued (net s0))
            @ concat (map (sends w (runId s0) (apiKey s0))
                        (concat (map (link_of w (runId s0)) (map add_call adds))))
            @ sends w (runId s0) (apiKey s0) (Update_run_status st isParallel)"
    if i0: "idle s0" and q0: "queue s0 = Fulfilled v" and ok: "reporting_errors_only w"
  proof -
    have st0: "steady s0"
      using i0 q0 by (simp add: steady_def idle_def)
    have "planned w ?final = planned w s0
        @ concat (map (sends w (runId s0) (apiKey s0))
            (concat (map (link_of w (runId s0)) (calls (es @ replicate n Tick)))))"
      unfolding n using exec_steady [OF ok st0 rep] by simp
    then show ?thesis
      using idle i0 assms(2) by (simp add: planned_idle)
  qed
  have "last (map snd (issued (net ?final))) = status_request w (runId s0) (apiKey s0) st isParallel"
    if "idle s0" "queue s0 = Fulfilled v" "reporting_errors_only w" "truthy (runId s0)"
    using plan that by simp
  then show ?thesis
    using one sorted lastpos plan by blast
qed

theorem operations_in_enqueue_order_witness:
  "idle (TestomatClient resumed_world no_params)
   \<and> reporting_errors_only resumed_world
   \<and> truthy (runId (TestomatClient resumed_world no_params))
   \<and> map (\<lambda>r. (verb r, target r))
       (map snd (issued (net (drain resumed_world
          (exec resumed_world
             [Call (Call_addTestRun (Some ''t1'') ''passed'' None),
              Call (Call_addTestRun (Some ''t2'') ''failed'' None), Tick,
              Call (Call_updateRunStatus ''failed'' False)]
             (TestomatClient resumed_world no_params))))))
     = [(POST, ''https://app.testomat.io/api/reporter/run7/testrun''),
        (POST, ''https://app.testomat.io/api/reporter/run7/testrun''),
        (PUT, ''https://app.testomat.io/api/reporter/run7'')]"
proof -
  let ?s = "TestomatClient resumed_world no_params"
  let ?es = "[Call (Call_addTestRun (Some ''t1'') ''passed'' None),
              Call (Call_addTestRun (Some ''t2'') ''failed'' None), Tick,
              Call (Call_updateRunStatus ''failed'' False)]"
  have h1: "?s = exec resumed_world [] (TestomatClient resumed_world no_params)"
    by simp
  have h2: "idle ?s" and h3: "queue ?s = Fulfilled None"
    and rid: "runId ?s = Some ''run7''" and key: "apiKey ?s = Some ''key''"
    and fresh: "net ?s = []"
    by (simp_all add: idle_def world_defs value_defs)
  have h4: "calls ?es = map add_call [(Some ''t1'', ''passed'', None), (Some ''t2'', ''failed'', None)]
      @ [Call_updateRunStatus ''failed'' False]"
    by (simp add: add_call_def)
  have ok: "reporting_errors_only resumed_world"
    by (simp add: reporting_errors_only_def world_defs)
  have url: "TESTOMAT_URL resumed_world = ''https://app.testomat.io''"
    by (simp add: world_defs value_defs)
  show ?thesis
    using operations_in_enqueue_order [OF h1 h4, of None] h2 h3 ok
    by (simp add: rid key fresh add_call_def truthy_def uploaded_def closure_def
          request_defs url js_string_def no_test_data_def diagnostic_def)
qed

section \<open>A failed update of an external run\<close>

text \<open>
  C2, at an input where the code departs from it. The link \<open>createRun\<close> chains for an
  external run id has no rejection handler. When its \<^verbatim>\<open>PUT\<close> fails, the chain stays
  rejected, the fulfilment handler of the next link is skipped, and the result of test
  \<open>t1\<close> is never sent although the run id is known: the transport sees the \<^verbatim>\<open>PUT\<close>
  alone. With the service answering, the same calls send the \<^verbatim>\<open>PUT\<close> and then the
  \<^verbatim>\<open>POST\<close> of the result.
\<close>

theorem failed_resume_skips_next_operation:
  "idle resume_fails_then_report
   \<and> runId resume_fails_then_report = Some ''run7''
   \<and> settlements resume_fails_then_report = [Rejected (AxiosError None), Fulfilled None]
   \<and> operations resume_fails_then_report
       = [(0, PUT, ''https://app.testomat.io/api/reporter/run7'')]
   \<and> idle resume_then_report
   \<and> operations resume_then_report
       = [(0, PUT, ''https://app.testomat.io/api/reporter/run7''),
          (1, POST, ''https://app.testomat.io/api/reporter/run7/testrun'')]"
  by (simp add: resume_fails_then_report_def resume_then_report_def operations_def
        world_defs value_defs call_defs basic_defs handler_defs request_defs)

section \<open>A rejection nobody handles\<close>

text \<open>
  C3, at an input where the code departs from it. The environment names the external
  run \<open>run7\<close> and the transport fails without a response, one of the errors of
  reporting. \<open>createRun\<close> returns a promise resolved with the run id and chains the
  \<^verbatim>\<open>PUT\<close> with no rejection handler. When the \<^verbatim>\<open>PUT\<close> has failed, the promise of the chain
  is rejected, nothing is logged, no link is chained on that promise and no caller holds
  it: the error is an unhandled rejection. On the other path of \<open>createRun\<close>, with no
  external run id, the same failure is taken by the handler of the link, which logs it
  and leaves the chain fulfilled.
\<close>

theorem failed_resume_is_unhandled:
  "benign (AxiosError None)
   \<and> returned unreachable_world resume_alone (TestomatClient unreachable_world no_params)
       = [Returns_resolved ''run7'']
   \<and> idle resume_fails_alone
   \<and> operations resume_fails_alone
       = [(0, PUT, ''https://app.testomat.io/api/reporter/run7'')]
   \<and> settlements resume_fails_alone = [Rejected (AxiosError None)]
   \<and> console resume_fails_alone = []
   \<and> unhandled [Returns_resolved ''run7''] resume_fails_alone = [AxiosError None]
   \<and> returned offline_world resume_alone (TestomatClient offline_world no_params)
       = [Returns_queue 0]
   \<and> settlements creation_failed = [Fulfilled None]
   \<and> console creation_failed = [Log_error_creating]
   \<and> unhandled [Returns_queue 0] creation_failed = []"
  by (simp add: resume_fails_alone_def resume_alone_def creation_failed_def operations_def
        unhandled_def benign_def world_defs value_defs call_defs basic_defs handler_defs
        request_defs)

section \<open>Without a run id nothing is sent\<close>

text \<open>
  C4. The client has no run id and its chain is idle and fulfilled, as it is when
  \<open>createRun\<close> was never called or the creation has failed. Then for every schedule of
  calls of \<open>addTestRun\<close> and \<open>updateRunStatus\<close> and turns of the event loop, the log of
  the transport and the list of uploads stay as they were, at every time and when the
  chain has run to its end, and each call has returned a promise of the chain that is
  then fulfilled with no value.
\<close>

theorem no_run_no_request:
  assumes "\<not> truthy (runId s0)" and "idle s0" and "queue s0 = Fulfilled v"
    and "\<forall>c\<in>set (calls es). reports c"
  shows "net (exec w es s0) = net s0 \<and> uploads (exec w es s0) = uploads s0
    \<and> net (drain w (exec w es s0)) = net s0 \<and> uploads (drain w (exec w es s0)) = uploads s0
    \<and> (\<forall>r\<in>set (returned w es s0). resolved_empty (drain w (exec w es s0)) r)"
proof -
  obtain n where n: "drain w (exec w es s0) = exec w (es @ replicate n Tick) s0"
    using drain_is_exec [of w "exec w es s0"] by (auto simp: exec_append)
  have d: "dormant s0"
    using assms(1,2,3) by (simp add: dormant_def idle_def)
  have now: "net (exec w es s0) = net s0 \<and> uploads (exec w es s0) = uploads s0"
    using exec_dormant [OF d assms(4), of "[]" w] by simp
  have "\<forall>c\<in>set (calls (es @ replicate n Tick)). reports c"
    using assms(4) by simp
  then have "net (exec w (es @ replicate n Tick) s0) = net s0
      \<and> uploads (exec w (es @ replicate n Tick) s0) = uploads s0
      \<and> (\<forall>r\<in>set ([] @ returned w (es @ replicate n Tick) s0).
            no_op (exec w (es @ replicate n Tick) s0) r)"
    using exec_dormant [OF d, of "es @ replicate n Tick" "[]" w] by simp
  then have "net (drain w (exec w es s0)) = net s0
      \<and> uploads (drain w (exec w es s0)) = uploads s0
      \<and> (\<forall>r\<in>set (returned w es s0). no_op (drain w (exec w es s0)) r)"
    by (simp add: n returned_append)
  then show ?thesis
    using now no_op_idle drain_idle by blast
qed

theorem no_run_no_request_witness:
  "\<not> truthy (runId creation_failed) \<and> idle creation_failed
   \<and> operations creation_failed = [(0, POST, ''https://app.testomat.io/api/reporter'')]
   \<and> returned offline_world
        [Call (Call_addTestRun (Some ''t1'') ''failed'' (Some with_screenshot)), Tick,
         Call (Call_updateRunStatus ''failed'' False)] creation_failed
      = [Returns_queue 1, Returns_queue 2]
   \<and> net (drain offline_world (exec offline_world
        [Call (Call_addTestRun (Some ''t1'') ''failed'' (Some with_screenshot)), Tick,
         Call (Call_updateRunStatus ''failed'' False)] creation_failed))
      = net creation_failed
   \<and> uploads (drain offline_world (exec offline_world
        [Call (Call_addTestRun (Some ''t1'') ''failed'' (Some with_screenshot)), Tick,
         Call (Call_updateRunStatus ''failed'' False)] creation_failed)) = []
   \<and> resolved_empty (drain offline_world (exec offline_world
        [Call (Call_addTestRun (Some ''t1'') ''failed'' (Some with_screenshot)), Tick,
         Call (Call_updateRunStatus ''failed'' False)] creation_failed)) (Returns_queue 1)
   \<and> resolved_empty (drain offline_world (exec offline_world
        [Call (Call_addTestRun (Some ''t1'') ''failed'' (Some with_screenshot)), Tick,
         Call (Call_updateRunStatus ''failed'' False)] creation_failed)) (Returns_queue 2)"
proof -
  let ?es = "[Call (Call_addTestRun (Some ''t1'') ''failed'' (Some with_screenshot)), Tick,
         Call (Call_updateRunStatus ''failed'' False)]"
  have s0: "creation_failed =
      \<lparr>apiKey = Some ''key'', title = None, parallel = None, runId = None, runUrl = None,
       queue = Fulfilled None, running = None, pending = [], settlements = [Fulfilled None],
       env_runId = None,
       net = [Issue 0 (create_run_request offline_world
                \<lparr>rp_api_key = ''key'', rp_title = None, rp_parallel = None,
                 rp_group_title = None, rp_env = None\<rparr>),
              Reply 0 (Inl (AxiosError None))],
       uploads = [], console = [Log_error_creating]\<rparr>"
    by (simp add: creation_failed_def world_defs value_defs call_defs basic_defs handler_defs)
  have h1: "\<not> truthy (runId creation_failed)" and h2: "idle creation_failed"
    and h3: "queue creation_failed = Fulfilled None" and up: "uploads creation_failed = []"
    by (simp_all add: s0 truthy_def idle_def)
  have h4: "\<forall>c\<in>set (calls ?es). reports c"
    by simp
  have ops: "operations creation_failed = [(0, POST, ''https://app.testomat.io/api/reporter'')]"
    by (simp add: s0 operations_def create_run_request_def world_defs value_defs)
  have rets: "returned offline_world ?es creation_failed = [Returns_queue 1, Returns_queue 2]"
    by (simp add: s0 call_defs basic_defs with_screenshot_def Let_def truthy_def)
  show ?thesis
    using no_run_no_request [OF h1 h2 h3 h4, of offline_world] h1 h2 ops
    unfolding rets by (simp add: up)
qed

section \<open>The test id of the payload\<close>

text \<open>
  C5, at an input where the code departs from it. \<open>addTestRun\<close> is called with the
  explicit test id \<open>T1\<close> and a result descriptor whose \<open>test_id\<close> is \<open>T2\<close>. The explicit
  id is written into the descriptor, but the payload takes the value read from the
  descriptor before: the \<open>test_id\<close> sent is \<open>T2\<close>.
\<close>

theorem embedded_test_id_is_sent:
  "idle explicit_and_embedded
   \<and> sent_test_ids explicit_and_embedded = [Some ''T2'']
   \<and> td_test_id (testData_after (Some ''T1'') embedded_T2) = Some ''T1''"
  by (simp add: explicit_and_embedded_def embedded_T2_def sent_test_ids_def
        testData_after_def world_defs value_defs call_defs basic_defs handler_defs
        request_defs)

section \<open>The diff of a failed comparison\<close>

lemma split_plain: "c \<notin> set a \<Longrightarrow> split c a = [a]"
  by (induction a) auto

lemma split_at: "c \<notin> set a \<Longrightarrow> split c (a @ c # b) = a # split c b"
  by (induction a) auto

lemma split_lines: "l \<in> set (split c v) \<Longrightarrow> c \<notin> set l"
  by (induction v arbitrary: l) (auto split: if_splits list.splits)

lemma split_nonempty: "split c v \<noteq> []"
  by (cases v) (auto split: list.splits)

lemma split_join:
  assumes "c \<notin> set m"
  shows "ls \<noteq> [] \<Longrightarrow> \<forall>l\<in>set ls. c \<notin> set l
    \<Longrightarrow> split c (m @ join (c # m) ls) = map ((@) m) ls"
proof (induction ls rule: list_nonempty_induct)
  case (single x)
  then show ?case using assms by (simp add: split_plain)
next
  case (cons x xs)
  then obtain y ys where xs: "xs = y # ys" by (cases xs) auto
  have "c \<notin> set (m @ x)" using cons assms by simp
  then have "split c ((m @ x) @ c # (m @ join (c # m) xs))
      = (m @ x) # split c (m @ join (c # m) xs)"
    by (rule split_at)
  then show ?case using cons by (simp add: xs)
qed

lemma split_marked:
  assumes "CHR 0x0A \<notin> set m"
  shows "split (CHR 0x0A) (marked m v) = map ((@) m) (split (CHR 0x0A) v)"
  unfolding marked_def nl_def
  using split_join [OF assms, of "split (CHR 0x0A) v"] split_nonempty split_lines
  by auto

lemma failed_comparison_lines:
  "split (CHR 0x0A) (fst (snd (diagnostic plain_world failed_comparison)))
   = ['''', ''boom'', '''', '''', ''+ expected - actual'', ''- foo'', ''+ bar'', '''', '''']"
  by (simp add: diagnostic_def failed_comparison_def no_test_data_def error_message_def
        diff_def marked_def callsite_text_def plain_world_def value_defs)

text \<open>
  C6 as the spec states it fails: for the actual value \<open>foo\<close> and the expected value
  \<open>bar\<close>, no line that carries \<open>bar\<close> comes before a line that carries \<open>foo\<close>. The
  line of the actual value is the earlier one.
\<close>

theorem expected_line_not_before_actual_line:
  "\<not> followed_by ''bar'' ''foo''
       (split (CHR 0x0A) (fst (snd (diagnostic plain_world failed_comparison))))
   \<and> followed_by ''foo'' ''bar''
       (split (CHR 0x0A) (fst (snd (diagnostic plain_world failed_comparison))))"
  unfolding failed_comparison_lines by simp

text \<open>
  C6, amended. When the error object carries a truthy actual and a truthy expected
  value, the diagnostic text contains the legend \<open>+ expected - actual\<close>, then on the
  next lines the actual value, then the expected value, then an empty line. Every line
  of the actual value is behind the marker \<open>- \<close> and every line of the expected value
  behind the marker \<open>+ \<close>.
\<close>

theorem diff_shows_actual_then_expected:
  assumes "td_error td = Some e" and "truthy (err_actual e)" and "truthy (err_expected e)"
  shows "(\<exists>before after. fst (snd (diagnostic w td)) =
       before @ chalk w [Bold, Green] ''+ expected'' @ '' '' @ chalk w [Bold, Red] ''- actual''
         @ nl @ chalk w [Red] (marked ''- '' (js_string (err_actual e)))
         @ nl @ chalk w [Green] (marked ''+ '' (js_string (err_expected e)))
         @ nl @ nl @ after)
    \<and> split (CHR 0x0A) (marked ''- '' (js_string (err_actual e)))
        = map ((@) ''- '') (split (CHR 0x0A) (js_string (err_actual e)))
    \<and> split (CHR 0x0A) (marked ''+ '' (js_string (err_expected e)))
        = map ((@) ''+ '') (split (CHR 0x0A) (js_string (err_expected e)))"
proof -
  let ?block = "chalk w [Bold, Green] ''+ expected'' @ '' '' @ chalk w [Bold, Red] ''- actual''
         @ nl @ chalk w [Red] (marked ''- '' (js_string (err_actual e)))
         @ nl @ chalk w [Green] (marked ''+ '' (js_string (err_expected e)))
         @ nl @ nl"
  let ?m = "error_message (case td_message td of None \<Rightarrow> Some [] | Some m \<Rightarrow> Some m) e"
  let ?head = "nl @ chalk w [Bold] (js_string ?m) @ nl @ nl @ nl"
  let ?stack0 = "nl @ chalk w [Bold] (js_string ?m) @ nl @ diff w e @ fst (callsite_text w e)"
  let ?banner = "js_string (td_steps td) @ nl @ nl
     @ chalk w [Bold, Red] ''################[ Failure ]################'' @ nl"
  have d: "diff w e = nl @ nl @ ?block"
    using assms by (simp add: diff_def)
  have s0: "?stack0 = ?head @ ?block @ fst (callsite_text w e)"
    by (simp add: d)
  have "fst (snd (diagnostic w td)) = ?stack0
      \<or> fst (snd (diagnostic w td)) = ?banner @ ?stack0"
    using assms(1) by (auto simp add: diagnostic_def Let_def nl_def)
  then have "\<exists>before after. fst (snd (diagnostic w td)) = before @ ?block @ after"
  proof
    assume "fst (snd (diagnostic w td)) = ?stack0"
    then have "fst (snd (diagnostic w td)) = ?head @ ?block @ fst (callsite_text w e)"
      using s0 by simp
    then show ?thesis by blast
  next
    assume "fst (snd (diagnostic w td)) = ?banner @ ?stack0"
    then have "fst (snd (diagnostic w td))
        = (?banner @ ?head) @ ?block @ fst (callsite_text w e)"
      using s0 by simp
    then show ?thesis by blast
  qed
  then show ?thesis
    by (simp add: split_marked)
qed

theorem diff_shows_actual_then_expected_witness:
  "td_error failed_comparison
     = Some \<lparr>err_message = Some ''boom'', err_inspect = None,
             err_actual = Some ''foo'', err_expected = Some ''bar''\<rparr>
   \<and> (\<exists>before after. fst (snd (diagnostic plain_world failed_comparison)) =
        before @ ''+ expected - actual'' @ nl @ ''- foo'' @ nl @ ''+ bar'' @ nl @ nl @ after)"
proof -
  let ?e = "\<lparr>err_message = Some ''boom'', err_inspect = None,
             err_actual = Some ''foo'', err_expected = Some ''bar''\<rparr>"
  have h1: "td_error failed_comparison = Some ?e"
    by (simp add: failed_comparison_def)
  have h2: "truthy (err_actual ?e)" and h3: "truthy (err_expected ?e)"
    by (simp_all add: truthy_def)
  have plain: "chalk plain_world styles str = str" for styles str
    by (simp add: plain_world_def)
  show ?thesis
    using diff_shows_actual_then_expected [OF h1 h2 h3, of plain_world] h1
    by (simp add: plain marked_def js_string_def nl_def)
qed

section \<open>Resuming an external run\<close>

text \<open>
  C7. On a client whose chain is idle and fulfilled, as the constructor leaves it, with
  an API key, a valid report URL and a non-empty external run id in the environment,
  \<open>createRun\<close> returns a promise already resolved with that id and sends nothing
  itself; when the chain has run, the transport has received one more request, the
  \<^verbatim>\<open>PUT\<close> of the run parameters to the run of that id, and no \<^verbatim>\<open>POST\<close>.
\<close>

theorem createRun_resumes_external_run:
  assumes "idle s" and "queue s = Fulfilled v" and "apiKey s = Some key"
    and "env_runId s = Some rid" and "rid \<noteq> []"
    and "isValidUrl w (trim (TESTOMAT_URL w))"
  shows "fst (createRun w s) = Returns_resolved rid
    \<and> net (snd (createRun w s)) = net s
    \<and> runId (snd (createRun w s)) = Some rid
    \<and> issued (net (drain w (snd (createRun w s)))) = issued (net s) @
        [(length (settlements s),
          \<lparr>via = Global_axios, verb = PUT,
           target = trim (TESTOMAT_URL w) @ ''/api/reporter/'' @ rid,
           body = Run_params \<lparr>rp_api_key = trim key, rp_title = title s,
                    rp_parallel = parallel s,
                    rp_group_title = TESTOMATIO_RUNGROUP_TITLE w,
                    rp_env = TESTOMATIO_ENV w\<rparr>\<rparr>)]"
proof -
  let ?ps = "\<lparr>rp_api_key = trim key, rp_title = title s, rp_parallel = parallel s,
              rp_group_title = TESTOMATIO_RUNGROUP_TITLE w, rp_env = TESTOMATIO_ENV w\<rparr>"
  let ?s1 = "enqueue (Put_run rid ?ps) (s\<lparr>runId := env_runId s\<rparr>)"
  have call: "createRun w s = (Returns_resolved rid, ?s1)"
    using assms by (simp add: createRun_def truthy_def js_string_def)
  have busy1: "\<not> idle ?s1"
    by (simp add: idle_def enqueue_def)
  have busy2: "\<not> idle (tick w ?s1)"
    using assms by (simp add: idle_def tick_def basic_defs)
  have done3: "idle (tick w (tick w ?s1))"
    using assms by (simp add: idle_def tick_def basic_defs split: sum.splits)
  have "drain w ?s1 = tick w (tick w ?s1)"
    using busy1 busy2 done3 by (simp add: drain_step drain_stop)
  moreover have "issued (net (tick w (tick w ?s1))) = issued (net s) @
      [(length (settlements s), put_run_request w rid ?ps)]"
    using assms by (simp add: idle_def tick_def basic_defs split: sum.splits)
  ultimately show ?thesis
    using assms by (simp add: call enqueue_def put_run_request_def)
qed

theorem createRun_resumes_external_run_witness:
  "idle (TestomatClient resumed_world no_params)
   \<and> fst (createRun resumed_world (TestomatClient resumed_world no_params))
     = Returns_resolved ''run7''
   \<and> map (\<lambda>(k, r). (verb r, target r))
       (issued (net (drain resumed_world
          (snd (createRun resumed_world (TestomatClient resumed_world no_params))))))
     = [(PUT, ''https://app.testomat.io/api/reporter/run7'')]"
proof -
  let ?s = "TestomatClient resumed_world no_params"
  have h1: "idle ?s" and h2: "queue ?s = Fulfilled None"
    and h3: "apiKey ?s = Some ''key''" and h4: "env_runId ?s = Some ''run7''"
    by (simp_all add: idle_def world_defs value_defs)
  have h5: "''run7'' \<noteq> []" by simp
  have h6: "isValidUrl resumed_world (trim (TESTOMAT_URL resumed_world))"
    by (simp add: world_defs value_defs)
  have url: "trim (TESTOMAT_URL resumed_world) = ''https://app.testomat.io''"
    by (simp add: world_defs value_defs)
  have fresh: "net ?s = []"
    by (simp add: TestomatClient_def)
  show ?thesis
    using createRun_resumes_external_run [OF h1 h2 h3 h4 h5 h6] h1
    by (simp add: url fresh)
qed

section \<open>The status event\<close>

text \<open>
  C8. \<open>updateRunStatus\<close> maps \<open>passed\<close> to the tag \<open>pass\<close> and \<open>failed\<close> to the tag
  \<open>fail\<close>, and appends the suffix \<open>_parallel\<close> when the parallel flag is set. On a
  client with a run id whose chain is idle and fulfilled,
  \<open>updateRunStatus(passed, true)\<close> sends \<open>pass_parallel\<close> and
  \<open>updateRunStatus(failed, false)\<close> sends \<open>fail\<close>, each with the raw status and the
  API key, in a \<^verbatim>\<open>PUT\<close> to the run.
\<close>

theorem updateRunStatus_status_event:
  assumes "idle s" and "queue s = Fulfilled v" and "truthy (runId s)"
  shows "statusEvent PASSED isParallel
         = Some (''pass'' @ (if isParallel then ''_parallel'' else []))
    \<and> statusEvent FAILED isParallel
         = Some (''fail'' @ (if isParallel then ''_parallel'' else []))
    \<and> issued (net (drain w (snd (updateRunStatus PASSED True s)))) = issued (net s) @
        [(length (settlements s),
          \<lparr>via = Client_axios, verb = PUT,
           target = TESTOMAT_URL w @ ''/api/reporter/'' @ js_string (runId s),
           body = Status_update \<lparr>sb_api_key = apiKey s,
                    sb_status_event = Some ''pass_parallel'', sb_status = PASSED\<rparr>\<rparr>)]
    \<and> issued (net (drain w (snd (updateRunStatus FAILED False s)))) = issued (net s) @
        [(length (settlements s),
          \<lparr>via = Client_axios, verb = PUT,
           target = TESTOMAT_URL w @ ''/api/reporter/'' @ js_string (runId s),
           body = Status_update \<lparr>sb_api_key = apiKey s,
                    sb_status_event = Some ''fail'', sb_status = FAILED\<rparr>\<rparr>)]"
proof -
  have ev: "statusEvent PASSED par = Some (''pass'' @ (if par then ''_parallel'' else []))"
    "statusEvent FAILED par = Some (''fail'' @ (if par then ''_parallel'' else []))" for par
    by (simp_all add: statusEvent_def PASSED_def FAILED_def js_string_def)
  have sent: "issued (net (drain w (snd (updateRunStatus st par s)))) = issued (net s) @
      [(length (settlements s), status_request w (runId s) (apiKey s) st par)]" for st par
  proof -
    let ?s1 = "enqueue (Update_run_status st par) s"
    have busy1: "\<not> idle ?s1"
      by (simp add: idle_def enqueue_def)
    have busy2: "\<not> idle (tick w ?s1)"
      using assms by (simp add: idle_def tick_def basic_defs)
    have done3: "idle (tick w (tick w ?s1))"
      using assms
      by (simp add: idle_def tick_def basic_defs updateRunStatus_catch_def split: sum.splits)
    have "drain w ?s1 = tick w (tick w ?s1)"
      using busy1 busy2 done3 by (simp add: drain_step drain_stop)
    moreover have "issued (net (tick w (tick w ?s1))) = issued (net s) @
        [(length (settlements s), status_request w (runId s) (apiKey s) st par)]"
      using assms
      by (simp add: idle_def tick_def basic_defs updateRunStatus_catch_def split: sum.splits)
    ultimately show ?thesis
      by (simp add: updateRunStatus_def)
  qed
  show ?thesis
    using ev [of isParallel] sent [of PASSED True] sent [of FAILED False]
      ev [of True] ev [of False]
    by (simp add: status_request_def)
qed

theorem updateRunStatus_status_event_witness:
  "truthy (runId (TestomatClient resumed_world no_params))
   \<and> map (\<lambda>(k, r). body r)
       (issued (net (drain resumed_world
          (snd (updateRunStatus PASSED True (TestomatClient resumed_world no_params))))))
     = [Status_update \<lparr>sb_api_key = Some ''key'', sb_status_event = Some ''pass_parallel'',
          sb_status = ''passed''\<rparr>]
   \<and> map (\<lambda>(k, r). body r)
       (issued (net (drain resumed_world
          (snd (updateRunStatus FAILED False (TestomatClient resumed_world no_params))))))
     = [Status_update \<lparr>sb_api_key = Some ''key'', sb_status_event = Some ''fail'',
          sb_status = ''failed''\<rparr>]"
proof -
  let ?s = "TestomatClient resumed_world no_params"
  have h1: "idle ?s" and h2: "queue ?s = Fulfilled None" and h3: "truthy (runId ?s)"
    and key: "apiKey ?s = Some ''key''" and fresh: "net ?s = []"
    by (simp_all add: idle_def world_defs value_defs)
  show ?thesis
    using updateRunStatus_status_event [OF h1 h2 h3, of True resumed_world] h3
    by (simp add: key fresh PASSED_def FAILED_def)
qed

section \<open>Circular references in the payload\<close>



section \<open>Files reported before the run id is known\<close>

text \<open>
  C10. A client made by the constructor has been used in any way and has no run id
  when \<open>addTestRun\<close> is called with a list of files. The call requests no upload. Whatever
  calls and turns of the event loop follow, no upload is ever requested for the link of
  this call, and a request sent by this link posts the test result with the files and
  an empty list of artifacts. When the turn of the link comes on a fulfilled chain and
  the run id is known by then, two turns of the event loop send that request.
\<close>

theorem late_run_id_sends_no_artifacts:
  assumes "s = exec w before (TestomatClient w ps)" and "\<not> truthy (runId s)"
    and "td = (case testData of None \<Rightarrow> no_test_data | Some d \<Rightarrow> d)"
    and "files = (case td_files td of None \<Rightarrow> [] | Some fs \<Rightarrow> fs)"
    and "s' = exec w es (snd (addTestRun w testId st testData s))"
  shows "fst (addTestRun w testId st testData s) = Returns_queue (chained s)
    \<and> uploads (snd (addTestRun w testId st testData s)) = uploads s
    \<and> (\<forall>u\<in>set (uploads s'). fst u \<noteq> chained s)
    \<and> (\<forall>x\<in>set (issued (net s')). fst x = chained s \<longrightarrow> bare files (snd x))
    \<and> (length (settlements s') = chained s \<and> running s' = None \<and> queue s' = Fulfilled v
          \<and> truthy (runId s') \<longrightarrow>
        issued (net (tick w (tick w s'))) = issued (net s')
          @ [(chained s, testrun_request w (runId s') (apiKey s') (closure w (runId s) st td) [])]
        \<and> bare files (testrun_request w (runId s') (apiKey s') (closure w (runId s) st td) []))"
proof -
  let ?c = "closure w (runId s) st td"
  have tg: "tagged s"
    unfolding assms(1) using serial_fresh tagged_fresh by (rule tagged_exec)
  note start = late_start [OF tg assms(2), of w testId st testData, folded assms(3)]
  then have none: "c_uploadedFiles ?c = []" by simp
  have files: "c_files ?c = files"
    by (simp add: closure_def Let_def assms(4) split: prod.splits)
  have late: "late (chained s) ?c s'"
    unfolding assms(5) using none start by (intro exec_late) simp_all
  have turn: "issued (net (tick w (tick w s'))) = issued (net s')
          @ [(chained s, testrun_request w (runId s') (apiKey s') ?c [])]"
    if "length (settlements s') = chained s" "running s' = None" "queue s' = Fulfilled v"
      "truthy (runId s')"
    using none late that by (rule late_turn)
  have "bare files (testrun_request w (runId s') (apiKey s') ?c [])"
    using bare_testrun_request [of ?c w] by (simp add: files)
  then show ?thesis
    using start late turn by (auto simp: late_def files)
qed

theorem late_run_id_sends_no_artifacts_witness:
  "\<not> truthy (runId before_run_id)
   \<and> runId (exec plain_world [Tick, Tick]
        (snd (addTestRun plain_world (Some ''t1'') ''failed'' (Some with_screenshot)
           before_run_id))) = Some ''run1''
   \<and> 1 \<notin> set (map fst (uploads (drain plain_world
        (snd (addTestRun plain_world (Some ''t1'') ''failed'' (Some with_screenshot)
           before_run_id)))))
   \<and> map (\<lambda>(k, r). (k, verb r, target r, bare [''shot.png''] r))
        (issued (net (tick plain_world (tick plain_world (exec plain_world [Tick, Tick]
          (snd (addTestRun plain_world (Some ''t1'') ''failed'' (Some with_screenshot)
             before_run_id)))))))
      = [(0, POST, ''https://app.testomat.io/api/reporter'', False),
         (1, POST, ''https://app.testomat.io/api/reporter/run1/testrun'', True)]"
proof -
  let ?s1 = "snd (addTestRun plain_world (Some ''t1'') ''failed'' (Some with_screenshot)
     before_run_id)"
  let ?s' = "exec plain_world [Tick, Tick] ?s1"
  have s: "before_run_id =
      \<lparr>apiKey = Some ''key'', title = None, parallel = None, runId = None, runUrl = None,
       queue = Fulfilled None, running = None,
       pending = [Create_run \<lparr>rp_api_key = ''key'', rp_title = None, rp_parallel = None,
                    rp_group_title = None, rp_env = None\<rparr>],
       settlements = [], env_runId = None, net = [], uploads = [], console = []\<rparr>"
    by (simp add: before_run_id_def world_defs value_defs call_defs basic_defs)
  have h1: "before_run_id
      = exec plain_world [Call Call_createRun] (TestomatClient plain_world no_params)"
    by (simp add: before_run_id_def)
  have h2: "\<not> truthy (runId before_run_id)"
    by (simp add: s truthy_def)
  have pos: "chained before_run_id = 1"
    by (simp add: s chained_def)
  have files: "(case td_files (case Some with_screenshot of None \<Rightarrow> no_test_data | Some d \<Rightarrow> d)
      of None \<Rightarrow> [] | Some fs \<Rightarrow> fs) = [''shot.png'']"
    by (simp add: with_screenshot_def)
  note general = late_run_id_sends_no_artifacts [OF h1 h2 refl refl refl,
      of "Some ''t1''" "''failed''" "Some with_screenshot", unfolded pos files]
  have s': "length (settlements ?s') = 1 \<and> running ?s' = None \<and> queue ?s' = Fulfilled None
      \<and> runId ?s' = Some ''run1''
      \<and> map (\<lambda>(k, r). (k, verb r, target r, bare [''shot.png''] r)) (issued (net ?s'))
          = [(0, POST, ''https://app.testomat.io/api/reporter'', False)]"
    by (simp add: s addTestRun_def closure_def diagnostic_def with_screenshot_def
          no_test_data_def Let_def chained_def tick_def basic_defs handler_defs request_defs
          world_defs value_defs bare_def)
  then have turn: "length (settlements ?s') = 1 \<and> running ?s' = None
      \<and> queue ?s' = Fulfilled None \<and> truthy (runId ?s')"
    by (simp add: truthy_def)
  have url: "TESTOMAT_URL plain_world = ''https://app.testomat.io''"
    by (simp add: world_defs value_defs)
  obtain n where n: "drain plain_world ?s1 = exec plain_world (replicate n Tick) ?s1"
    using drain_is_exec by blast
  have "\<forall>u\<in>set (uploads (exec plain_world (replicate n Tick) ?s1)). fst u \<noteq> 1"
    using general [of "replicate n Tick"] by blast
  then have never: "1 \<notin> set (map fst (uploads (drain plain_world ?s1)))"
    unfolding n by auto
  have "map (\<lambda>(k, r). (k, verb r, target r, bare [''shot.png''] r))
        (issued (net (tick plain_world (tick plain_world ?s'))))
      = [(0, POST, ''https://app.testomat.io/api/reporter'', False),
         (1, POST, ''https://app.testomat.io/api/reporter/run1/testrun'', True)]"
    using general [of "[Tick, Tick]" None] turn s'
    by (simp add: testrun_request_def url js_string_def)
  then show ?thesis
    using h2 s' never by blast
qed

end
